theory Spec2Isabelle
  imports Complex_Main "HOL-Library.Signed_Division"
begin

section \<open>Data model\<close>

text \<open>
  The octree of \<^verbatim>\<open>src/tree.c\<close> is a pointer structure: cells are allocated with
  \<^verbatim>\<open>calloc\<close>, linked through \<^verbatim>\<open>oct[8]\<close>, released with \<^verbatim>\<open>free\<close>, and every
  particle carries a pointer \<^verbatim>\<open>c\<close> back to the cell that holds it. The model keeps the
  cells in an explicit store, a map from addresses to cell records; a pointer is an
  \<open>addr option\<close> (\<open>None\<close> is \<^verbatim>\<open>NULL\<close>). Reading or writing through \<^verbatim>\<open>NULL\<close>, through
  the address of a released cell, or outside an array is undefined behaviour in C and an
  error value here.

  Doubles are modelled by \<open>real\<close>: finite values with exact arithmetic (no rounding, no
  NaN, no infinities). \<^verbatim>\<open>int\<close> is modelled by \<open>int\<close>; the counts involved are particle
  numbers, far from the 32-bit range.

  The build modelled is the default one: neither \<^verbatim>\<open>MPI\<close> nor \<^verbatim>\<open>QUADRUPOLE\<close> is defined.
\<close>

type_synonym addr = nat

datatype error = NullPointer | DanglingPointer | IndexOutOfBounds | DivisionByZero | OutOfFuel

text \<open>\<^verbatim>\<open>struct cell\<close>, with the fields that \<^verbatim>\<open>tree.c\<close> uses. The fields are
  prefixed (\<^verbatim>\<open>node->pt\<close> is \<open>cell_pt\<close>).\<close>

record cell =
  cell_x :: real
  cell_y :: real
  cell_z :: real
  cell_w :: real
  cell_m :: real
  cell_mx :: real
  cell_my :: real
  cell_mz :: real
  cell_oct :: "addr option list"
  cell_pt :: int

text \<open>\<^verbatim>\<open>struct Particle\<close>, with the fields that \<^verbatim>\<open>tree.c\<close> uses.\<close>

record Particle =
  p_x :: real
  p_y :: real
  p_z :: real
  p_m :: real
  p_c :: "addr option"

text \<open>\<^verbatim>\<open>struct Rebound\<close>, with the fields that \<^verbatim>\<open>tree.c\<close> uses, the store of
  cells (\<open>heap\<close>) and the next address the allocator hands out (\<open>brk\<close>). The array
  \<^verbatim>\<open>r->particles\<close> is the list \<open>particles\<close> (its length is the allocated capacity, of
  which the first \<open>N\<close> entries are in use); \<^verbatim>\<open>r->tree_root\<close> is \<open>None\<close> before the
  root grid is allocated.\<close>

record Rebound =
  particles :: "Particle list"
  N :: int
  N_tree_fixed :: int
  tree_root :: "addr option list option"
  root_nx :: int
  root_ny :: int
  root_nz :: int
  root_n :: int
  boxsize :: real
  boxsize_x :: real
  boxsize_y :: real
  boxsize_z :: real
  heap :: "addr \<rightharpoonup> cell"
  brk :: addr

subsection \<open>Errors and memory access\<close>

definition rbind :: "error + 'a \<Rightarrow> ('a \<Rightarrow> error + 'b) \<Rightarrow> error + 'b" where
  "rbind v f = (case v of Inl e \<Rightarrow> Inl e | Inr y \<Rightarrow> f y)"

definition get_cell :: "Rebound \<Rightarrow> addr \<Rightarrow> error + cell" where
  "get_cell r a = (case heap r a of None \<Rightarrow> Inl DanglingPointer | Some nd \<Rightarrow> Inr nd)"

definition set_cell :: "Rebound \<Rightarrow> addr \<Rightarrow> cell \<Rightarrow> Rebound" where
  "set_cell r a nd = r\<lparr>heap := (heap r)(a \<mapsto> nd)\<rparr>"

definition free_cell :: "Rebound \<Rightarrow> addr \<Rightarrow> Rebound" where
  "free_cell r a = r\<lparr>heap := (heap r)(a := None)\<rparr>"

definition get_particle :: "Rebound \<Rightarrow> int \<Rightarrow> error + Particle" where
  "get_particle r i =
     (if 0 \<le> i \<and> nat i < length (particles r) then Inr (particles r ! nat i)
      else Inl IndexOutOfBounds)"

definition set_particle :: "Rebound \<Rightarrow> int \<Rightarrow> Particle \<Rightarrow> error + Rebound" where
  "set_particle r i p =
     (if 0 \<le> i \<and> nat i < length (particles r)
      then Inr (r\<lparr>particles := (particles r)[nat i := p]\<rparr>)
      else Inl IndexOutOfBounds)"

text \<open>\<^verbatim>\<open>r->particles[i].c = node\<close>\<close>

definition set_particle_c :: "Rebound \<Rightarrow> int \<Rightarrow> addr option \<Rightarrow> error + Rebound" where
  "set_particle_c r i node =
     rbind (get_particle r i) (\<lambda>p. set_particle r i (p\<lparr>p_c := node\<rparr>))"

text \<open>\<^verbatim>\<open>node->oct[o] = q\<close>\<close>

definition set_oct :: "Rebound \<Rightarrow> addr \<Rightarrow> nat \<Rightarrow> addr option \<Rightarrow> error + Rebound" where
  "set_oct r a o' q =
     rbind (get_cell r a) (\<lambda>nd. Inr (set_cell r a (nd\<lparr>cell_oct := (cell_oct nd)[o' := q]\<rparr>)))"

section \<open>Node model\<close>

definition tree_get_octant_for_particle_in_cell :: "Particle \<Rightarrow> cell \<Rightarrow> nat" where
  "tree_get_octant_for_particle_in_cell p node =
     (if p_x p < cell_x node then 1 else 0) +
     (if p_y p < cell_y node then 2 else 0) +
     (if p_z p < cell_z node then 4 else 0)"

definition tree_particle_is_inside_cell :: "Rebound \<Rightarrow> addr \<Rightarrow> error + int" where
  "tree_particle_is_inside_cell r a =
     rbind (get_cell r a) (\<lambda>node.
     rbind (get_particle r (cell_pt node)) (\<lambda>p.
       if \<bar>p_x p - cell_x node\<bar> > cell_w node / 2 \<or>
          \<bar>p_y p - cell_y node\<bar> > cell_w node / 2 \<or>
          \<bar>p_z p - cell_z node\<bar> > cell_w node / 2
       then Inr 0 else Inr 1))"

section \<open>The particle store\<close>

text \<open>Modelled from the spec: \<^verbatim>\<open>particles_add\<close> is declared in \<^verbatim>\<open>particle.h\<close> and
  defined outside \<^verbatim>\<open>tree.c\<close>. The spec gives the particle store an "append new
  particle" operation and says that the evicted particle is not put back into the tree
  during the maintenance pass. The particle is stored at index \<open>N\<close> (the array grows
  when it is full) and \<open>N\<close> is incremented; the tree is not touched.\<close>

definition particles_add :: "Rebound \<Rightarrow> Particle \<Rightarrow> Rebound" where
  "particles_add r pt =
     r\<lparr>particles := (if nat (N r) < length (particles r)
                      then (particles r)[nat (N r) := pt]
                      else particles r @ [pt]),
       N := N r + 1\<rparr>"

text \<open>Modelled from the spec: \<^verbatim>\<open>particles_add_fixed\<close> is declared in \<^verbatim>\<open>particle.h\<close>
  and defined outside \<^verbatim>\<open>tree.c\<close>. The spec says that an evicted particle below the
  fixed-particle threshold is handed back to the fixed, non-relocating subset: it is
  stored at its old index; the tree is not touched.\<close>

definition particles_add_fixed :: "Rebound \<Rightarrow> Particle \<Rightarrow> int \<Rightarrow> Rebound" where
  "particles_add_fixed r pt pos = r\<lparr>particles := (particles r)[nat pos := pt]\<rparr>"

section \<open>Tree construction\<close>

text \<open>The geometry of a new cell (lines 86 to 99 of \<^verbatim>\<open>tree.c\<close>): a root cell is
  centred on the root box of the particle; a child cell has half the width of its
  parent and is offset by a quarter of the parent's width along each axis, towards the
  negative side where the octant's bit is set. \<^verbatim>\<open>%\<close> is C's remainder (\<open>smod\<close>).\<close>

definition new_cell :: "Rebound \<Rightarrow> Particle \<Rightarrow> addr option \<Rightarrow> nat \<Rightarrow> error + cell" where
  "new_cell r p parent o' =
     (let zero = \<lparr>cell_x = 0, cell_y = 0, cell_z = 0, cell_w = 0, cell_m = 0, cell_mx = 0,
                  cell_my = 0, cell_mz = 0, cell_oct = replicate 8 None, cell_pt = 0\<rparr>
      in case parent of
        None \<Rightarrow>
          if boxsize r = 0 \<or> root_nx r = 0 \<or> root_ny r = 0 \<or> root_nz r = 0
          then Inl DivisionByZero
          else
            let i = \<lfloor>(p_x p + boxsize_x r / 2) / boxsize r\<rfloor> smod root_nx r;
                j = \<lfloor>(p_y p + boxsize_y r / 2) / boxsize r\<rfloor> smod root_ny r;
                k = \<lfloor>(p_z p + boxsize_z r / 2) / boxsize r\<rfloor> smod root_nz r
            in Inr (zero\<lparr>cell_w := boxsize r,
                         cell_x := - boxsize_x r / 2 + boxsize r * (0.5 + of_int i),
                         cell_y := - boxsize_y r / 2 + boxsize r * (0.5 + of_int j),
                         cell_z := - boxsize_z r / 2 + boxsize r * (0.5 + of_int k)\<rparr>)
      | Some pa \<Rightarrow>
          rbind (get_cell r pa) (\<lambda>par.
            let w = cell_w par / 2
            in Inr (zero\<lparr>cell_w := w,
                         cell_x := cell_x par + w / 2 * (if o' mod 2 = 0 then 1 else - 1),
                         cell_y := cell_y par + w / 2 * (if (o' div 2) mod 2 = 0 then 1 else - 1),
                         cell_z := cell_z par + w / 2 * (if (o' div 4) mod 2 = 0 then 1 else - 1)\<rparr>)))"

text \<open>The body of \<^verbatim>\<open>tree_add_particle_to_cell\<close>, with the recursive call as the
  parameter \<open>add\<close>. The function returns the state and the (never \<^verbatim>\<open>NULL\<close>) cell.\<close>

definition tree_add_particle_to_cell_body ::
  "(Rebound \<Rightarrow> addr option \<Rightarrow> int \<Rightarrow> addr option \<Rightarrow> nat \<Rightarrow> error + Rebound \<times> addr) \<Rightarrow>
   Rebound \<Rightarrow> addr option \<Rightarrow> int \<Rightarrow> addr option \<Rightarrow> nat \<Rightarrow> error + Rebound \<times> addr" where
  "tree_add_particle_to_cell_body add r node pt parent o' =
     (case node of
        None \<Rightarrow>
          rbind (get_particle r pt) (\<lambda>p.
          rbind (new_cell r p parent o') (\<lambda>nd.
            let a = brk r;
                r1 = (set_cell r a (nd\<lparr>cell_pt := pt\<rparr>))\<lparr>brk := Suc a\<rparr>
            in rbind (set_particle_c r1 pt (Some a)) (\<lambda>r2.
               rbind (get_cell r2 a) (\<lambda>nd2.
                 Inr (set_cell r2 a (nd2\<lparr>cell_oct := replicate 8 None\<rparr>), a)))))
      | Some a \<Rightarrow>
          rbind (get_cell r a) (\<lambda>nd.
            if cell_pt nd \<ge> 0 then
              rbind (get_particle r (cell_pt nd)) (\<lambda>p1.
                let o1 = tree_get_octant_for_particle_in_cell p1 nd
                in rbind (add r (cell_oct nd ! o1) (cell_pt nd) (Some a) o1) (\<lambda>(r1, c1).
                   rbind (set_oct r1 a o1 (Some c1)) (\<lambda>r2.
                   rbind (get_particle r2 pt) (\<lambda>p2.
                   rbind (get_cell r2 a) (\<lambda>nd2.
                     let o2 = tree_get_octant_for_particle_in_cell p2 nd2
                     in rbind (add r2 (cell_oct nd2 ! o2) pt (Some a) o2) (\<lambda>(r3, c2).
                        rbind (set_oct r3 a o2 (Some c2)) (\<lambda>r4.
                        rbind (get_cell r4 a) (\<lambda>nd4.
                          Inr (set_cell r4 a (nd4\<lparr>cell_pt := - 2\<rparr>), a)))))))))
            else
              let r1 = set_cell r a (nd\<lparr>cell_pt := cell_pt nd - 1\<rparr>)
              in rbind (get_particle r1 pt) (\<lambda>p.
                 rbind (get_cell r1 a) (\<lambda>nd1.
                   let o1 = tree_get_octant_for_particle_in_cell p nd1
                   in rbind (add r1 (cell_oct nd1 ! o1) pt (Some a) o1) (\<lambda>(r2, c1).
                      rbind (set_oct r2 a o1 (Some c1)) (\<lambda>r3. Inr (r3, a)))))))"

text \<open>The recursion of \<^verbatim>\<open>tree_add_particle_to_cell\<close> does not end when two particles
  have the same position, so the model counts the depth of the recursion down from a
  bound: the first argument is the number of nested calls allowed.\<close>

primrec tree_add_particle_to_cell ::
  "nat \<Rightarrow> Rebound \<Rightarrow> addr option \<Rightarrow> int \<Rightarrow> addr option \<Rightarrow> nat \<Rightarrow> error + Rebound \<times> addr" where
  "tree_add_particle_to_cell 0 = (\<lambda>r node pt parent o'. Inl OutOfFuel)"
| "tree_add_particle_to_cell (Suc n) = tree_add_particle_to_cell_body (tree_add_particle_to_cell n)"

section \<open>Tree maintenance\<close>

text \<open>The first loop of the branch case (lines 156 to 158): every octant is maintained
  in turn, \<^verbatim>\<open>node->oct[o] = tree_update_cell(r, node->oct[o])\<close>. The recursive call is the
  parameter \<open>upd\<close>.\<close>

fun update_children ::
  "(Rebound \<Rightarrow> addr option \<Rightarrow> error + Rebound \<times> addr option) \<Rightarrow> addr \<Rightarrow> nat list \<Rightarrow>
   Rebound \<Rightarrow> error + Rebound" where
  "update_children upd a [] r = Inr r"
| "update_children upd a (o' # os) r =
     rbind (get_cell r a) (\<lambda>nd.
     rbind (upd r (cell_oct nd ! o')) (\<lambda>(r1, q).
     rbind (set_oct r1 a o' q) (\<lambda>r2.
       update_children upd a os r2)))"

text \<open>The second loop of the branch case (lines 160 to 171), after \<^verbatim>\<open>node->pt = 0\<close>:
  a leaf child subtracts one from \<^verbatim>\<open>node->pt\<close> and is remembered in \<^verbatim>\<open>test\<close>, a
  branch child adds its own (negative) \<^verbatim>\<open>pt\<close>.\<close>

fun recount :: "addr \<Rightarrow> nat list \<Rightarrow> Rebound \<Rightarrow> int \<Rightarrow> error + Rebound \<times> int" where
  "recount a [] r test = Inr (r, test)"
| "recount a (o' # os) r test =
     rbind (get_cell r a) (\<lambda>nd.
       case cell_oct nd ! o' of
         None \<Rightarrow> recount a os r test
       | Some d \<Rightarrow>
           rbind (get_cell r d) (\<lambda>dn.
             if cell_pt dn \<ge> 0
             then recount a os (set_cell r a (nd\<lparr>cell_pt := cell_pt nd - 1\<rparr>)) (int o')
             else recount a os (set_cell r a (nd\<lparr>cell_pt := cell_pt nd + cell_pt dn\<rparr>)) test))"

text \<open>The derefinement check (lines 173 to 183): an empty cell is released, a cell with
  \<^verbatim>\<open>pt == -1\<close> takes over the particle of the child \<^verbatim>\<open>oct[test]\<close> and releases that
  child.\<close>

definition derefine :: "Rebound \<Rightarrow> addr \<Rightarrow> int \<Rightarrow> error + Rebound \<times> addr option" where
  "derefine r a test =
     rbind (get_cell r a) (\<lambda>nd.
       if cell_pt nd = 0 then Inr (free_cell r a, None)
       else if cell_pt nd = - 1 then
         (if test < 0 \<or> 8 \<le> test then Inl IndexOutOfBounds
          else case cell_oct nd ! nat test of
            None \<Rightarrow> Inl NullPointer
          | Some d \<Rightarrow>
              rbind (get_cell r d) (\<lambda>dn.
                let r1 = set_cell r a (nd\<lparr>cell_pt := cell_pt dn\<rparr>)
                in rbind (set_particle_c r1 (cell_pt dn) (Some a)) (\<lambda>r2.
                   rbind (set_oct (free_cell r2 d) a (nat test) None) (\<lambda>r3.
                     Inr (r3, Some a)))))
       else Inr (r, Some a))"

text \<open>The leaf case (lines 186 to 202). A particle outside its cell is handed to the
  particle store: below \<^verbatim>\<open>N_tree_fixed\<close> by \<^verbatim>\<open>particles_add_fixed\<close>; otherwise the
  last particle is moved into its place, the cell of the moved particle is given the new
  index, and the evicted particle is handed to \<^verbatim>\<open>particles_add\<close>.\<close>

definition update_leaf :: "Rebound \<Rightarrow> addr \<Rightarrow> error + Rebound \<times> addr option" where
  "update_leaf r a =
     rbind (tree_particle_is_inside_cell r a) (\<lambda>inside.
       if inside = 0 then
         rbind (get_cell r a) (\<lambda>nd.
           let oldpos = cell_pt nd
           in rbind (get_particle r oldpos) (\<lambda>reinsertme.
              rbind (if oldpos < N_tree_fixed r
                     then Inr (particles_add_fixed r reinsertme oldpos)
                     else
                       let r1 = r\<lparr>N := N r - 1\<rparr>
                       in rbind (get_particle r1 (N r1)) (\<lambda>last.
                          rbind (set_particle r1 oldpos last) (\<lambda>r2.
                            case p_c last of
                              None \<Rightarrow> Inl NullPointer
                            | Some t \<Rightarrow>
                                rbind (get_cell r2 t) (\<lambda>tn.
                                  Inr (particles_add (set_cell r2 t (tn\<lparr>cell_pt := oldpos\<rparr>))
                                         reinsertme)))))
                (\<lambda>r4. Inr (free_cell r4 a, None))))
       else
         rbind (get_cell r a) (\<lambda>nd.
         rbind (set_particle_c r (cell_pt nd) (Some a)) (\<lambda>r1. Inr (r1, Some a))))"

text \<open>The body of \<^verbatim>\<open>tree_update_cell\<close>, with the recursive call as the parameter
  \<open>upd\<close>.\<close>

definition tree_update_cell_body ::
  "(Rebound \<Rightarrow> addr option \<Rightarrow> error + Rebound \<times> addr option) \<Rightarrow>
   Rebound \<Rightarrow> addr option \<Rightarrow> error + Rebound \<times> addr option" where
  "tree_update_cell_body upd r node =
     (case node of
        None \<Rightarrow> Inr (r, None)
      | Some a \<Rightarrow>
          rbind (get_cell r a) (\<lambda>nd.
            if cell_pt nd < 0 then
              rbind (update_children upd a [0..<8] r) (\<lambda>r1.
              rbind (get_cell r1 a) (\<lambda>nd1.
              rbind (recount a [0..<8] (set_cell r1 a (nd1\<lparr>cell_pt := 0\<rparr>)) (- 1)) (\<lambda>(r2, test).
                derefine r2 a test)))
            else update_leaf r a))"

text \<open>The recursion follows the pointers of the store, which need not form a tree, so
  the model bounds its depth: \<open>tree_update_cell n\<close> maintains a tree of at most \<open>n\<close>
  levels and reports \<open>OutOfFuel\<close> on a deeper one.\<close>

primrec tree_update_cell ::
  "nat \<Rightarrow> Rebound \<Rightarrow> addr option \<Rightarrow> error + Rebound \<times> addr option" where
  "tree_update_cell 0 =
     (\<lambda>r node. case node of None \<Rightarrow> Inr (r, None) | Some a \<Rightarrow> Inl OutOfFuel)"
| "tree_update_cell (Suc n) = tree_update_cell_body (tree_update_cell n)"



section \<open>Moment aggregation\<close>

text \<open>The sums, products and quotients of the aggregation are computed in double
  arithmetic, where every operation rounds its result. The model keeps the value of a
  double (a real number) and takes the rounded operations as the parameter \<open>ar\<close>:
  \<open>fadd ar x y\<close> is the double that \<^verbatim>\<open>x + y\<close> evaluates to, and likewise \<open>fmul\<close> and \<open>fdiv\<close>.
  The comparison \<^verbatim>\<open>m_tot > 0\<close> is exact on doubles. \<open>exact\<close> is the arithmetic that does
  not round.\<close>

record arith =
  fadd :: "real \<Rightarrow> real \<Rightarrow> real"
  fmul :: "real \<Rightarrow> real \<Rightarrow> real"
  fdiv :: "real \<Rightarrow> real \<Rightarrow> real"

definition exact :: arith where
  "exact = \<lparr>fadd = (+), fmul = (*), fdiv = (/)\<rparr>"

text \<open>The loop of the branch case (lines 223 to 234): every child is aggregated and
  its mass and mass-weighted centre of mass are added to the node's.\<close>

fun gravity_children ::
  "arith \<Rightarrow> (Rebound \<Rightarrow> addr \<Rightarrow> error + Rebound) \<Rightarrow> addr \<Rightarrow> nat list \<Rightarrow> Rebound \<Rightarrow>
   error + Rebound" where
  "gravity_children ar grav a [] r = Inr r"
| "gravity_children ar grav a (o' # os) r =
     rbind (get_cell r a) (\<lambda>nd.
       case cell_oct nd ! o' of
         None \<Rightarrow> gravity_children ar grav a os r
       | Some d \<Rightarrow>
           rbind (grav r d) (\<lambda>r1.
           rbind (get_cell r1 d) (\<lambda>dn.
           rbind (get_cell r1 a) (\<lambda>nd1.
             let d_m = cell_m dn
             in gravity_children ar grav a os
                  (set_cell r1 a
                     (nd1\<lparr>cell_mx := fadd ar (cell_mx nd1) (fmul ar (cell_mx dn) d_m),
                          cell_my := fadd ar (cell_my nd1) (fmul ar (cell_my dn) d_m),
                          cell_mz := fadd ar (cell_mz nd1) (fmul ar (cell_mz dn) d_m),
                          cell_m := fadd ar (cell_m nd1) d_m\<rparr>))))))"

text \<open>The body of \<^verbatim>\<open>tree_update_gravity_data_in_cell\<close> (lines 208 to 268 without the
  \<^verbatim>\<open>QUADRUPOLE\<close> parts), with the recursive call as the parameter \<open>grav\<close>.\<close>

definition tree_update_gravity_data_in_cell_body ::
  "arith \<Rightarrow> (Rebound \<Rightarrow> addr \<Rightarrow> error + Rebound) \<Rightarrow> Rebound \<Rightarrow> addr \<Rightarrow> error + Rebound" where
  "tree_update_gravity_data_in_cell_body ar grav r a =
     rbind (get_cell r a) (\<lambda>nd.
       if cell_pt nd < 0 then
         rbind (gravity_children ar grav a [0..<8]
                  (set_cell r a (nd\<lparr>cell_m := 0, cell_mx := 0, cell_my := 0, cell_mz := 0\<rparr>)))
           (\<lambda>r1.
         rbind (get_cell r1 a) (\<lambda>nd1.
           let m_tot = cell_m nd1
           in if m_tot > 0
              then Inr (set_cell r1 a (nd1\<lparr>cell_mx := fdiv ar (cell_mx nd1) m_tot,
                                           cell_my := fdiv ar (cell_my nd1) m_tot,
                                           cell_mz := fdiv ar (cell_mz nd1) m_tot\<rparr>))
              else Inr r1))
       else
         rbind (get_particle r (cell_pt nd)) (\<lambda>p.
           Inr (set_cell r a (nd\<lparr>cell_m := p_m p, cell_mx := p_x p,
                                  cell_my := p_y p, cell_mz := p_z p\<rparr>))))"

text \<open>The recursion follows the pointers of the store; as for maintenance, the model
  bounds its depth.\<close>

primrec tree_update_gravity_data_in_cell ::
  "arith \<Rightarrow> nat \<Rightarrow> Rebound \<Rightarrow> addr \<Rightarrow> error + Rebound" where
  "tree_update_gravity_data_in_cell ar 0 = (\<lambda>r a. Inl OutOfFuel)"
| "tree_update_gravity_data_in_cell ar (Suc n) =
     tree_update_gravity_data_in_cell_body ar (tree_update_gravity_data_in_cell ar n)"

section \<open>Geometry of a cell\<close>

definition same_geometry :: "cell \<Rightarrow> cell \<Rightarrow> bool" where
  "same_geometry c c' =
     (cell_x c' = cell_x c \<and> cell_y c' = cell_y c \<and> cell_z c' = cell_z c \<and>
      cell_w c' = cell_w c)"

text \<open>Every cell of the store \<open>h'\<close> is a cell of the store \<open>h\<close>, at the same address
  and with the same centre and width: no cell was allocated and no geometry was
  written.\<close>

definition survivors_keep_geometry :: "(addr \<rightharpoonup> cell) \<Rightarrow> (addr \<rightharpoonup> cell) \<Rightarrow> bool" where
  "survivors_keep_geometry h h' =
     (\<forall>a c'. h' a = Some c' \<longrightarrow> (\<exists>c. h a = Some c \<and> same_geometry c c'))"

text \<open>Every cell of the store \<open>h\<close> is still a cell of the store \<open>h'\<close>, with the same
  centre and width: no cell was released and no geometry was written.\<close>

definition cells_keep_geometry :: "(addr \<rightharpoonup> cell) \<Rightarrow> (addr \<rightharpoonup> cell) \<Rightarrow> bool" where
  "cells_keep_geometry h h' =
     (\<forall>a c. h a = Some c \<longrightarrow> (\<exists>c'. h' a = Some c' \<and> same_geometry c c'))"

text \<open>The allocator hands out the addresses from \<open>brk\<close> upwards, none of which holds a
  cell.\<close>

definition alloc_ok :: "Rebound \<Rightarrow> bool" where
  "alloc_ok r = (\<forall>a. brk r \<le> a \<longrightarrow> heap r a = None)"

section \<open>Tree shape and invariants\<close>

text \<open>The containment test, as the spec words it: every axis distance from the
  particle to the centre of the cell is at most half the width.\<close>

definition inside_cell :: "Particle \<Rightarrow> cell \<Rightarrow> bool" where
  "inside_cell p nd =
     (\<bar>p_x p - cell_x nd\<bar> \<le> cell_w nd / 2 \<and> \<bar>p_y p - cell_y nd\<bar> \<le> cell_w nd / 2 \<and>
      \<bar>p_z p - cell_z nd\<bar> \<le> cell_w nd / 2)"

text \<open>The addresses reached from a pointer through \<open>oct\<close>, down to \<open>n\<close> levels.\<close>

fun nodes :: "nat \<Rightarrow> (addr \<rightharpoonup> cell) \<Rightarrow> addr option \<Rightarrow> addr set" where
  "nodes n h None = {}"
| "nodes 0 h (Some a) = {a}"
| "nodes (Suc n) h (Some a) =
     insert a (case h a of None \<Rightarrow> {} | Some nd \<Rightarrow> (\<Union>q \<in> set (cell_oct nd). nodes n h q))"

fun disjoint_sets :: "'a set list \<Rightarrow> bool" where
  "disjoint_sets [] = True"
| "disjoint_sets (S # Ss) = ((\<forall>T \<in> set Ss. S \<inter> T = {}) \<and> disjoint_sets Ss)"

text \<open>The pointer is the root of a tree of at most \<open>n\<close> levels: every cell reached is
  allocated and has eight octant slots, no cell is reached twice.\<close>

fun wf_tree :: "nat \<Rightarrow> (addr \<rightharpoonup> cell) \<Rightarrow> addr option \<Rightarrow> bool" where
  "wf_tree n h None = True"
| "wf_tree 0 h (Some a) = False"
| "wf_tree (Suc n) h (Some a) =
     (case h a of
        None \<Rightarrow> False
      | Some nd \<Rightarrow>
          length (cell_oct nd) = 8 \<and>
          (\<forall>q \<in> set (cell_oct nd). wf_tree n h q \<and> a \<notin> nodes n h q) \<and>
          disjoint_sets (map (nodes n h) (cell_oct nd)))"

text \<open>The box of the child lies within the box of the parent.\<close>

definition nested :: "cell \<Rightarrow> cell \<Rightarrow> bool" where
  "nested dn nd =
     (\<bar>cell_x dn - cell_x nd\<bar> + cell_w dn / 2 \<le> cell_w nd / 2 \<and>
      \<bar>cell_y dn - cell_y nd\<bar> + cell_w dn / 2 \<le> cell_w nd / 2 \<and>
      \<bar>cell_z dn - cell_z nd\<bar> + cell_w dn / 2 \<le> cell_w nd / 2)"

text \<open>The invariant of the store and the particle array between two operations on the
  tree: a leaf (\<open>pt \<ge> 0\<close>) has no children, holds the index of a particle in use, and
  that particle points back to it; a particle in use points to no allocated cell other
  than the leaf holding its index; the boxes of children lie within their parents'.\<close>

definition tree_inv :: "Rebound \<Rightarrow> bool" where
  "tree_inv r =
     (N r \<le> int (length (particles r)) \<and>
      (\<forall>a nd. heap r a = Some nd \<longrightarrow>
         (0 \<le> cell_pt nd \<longrightarrow>
            cell_oct nd = replicate 8 None \<and> cell_pt nd < N r \<and>
            p_c (particles r ! nat (cell_pt nd)) = Some a) \<and>
         (\<forall>d dn. Some d \<in> set (cell_oct nd) \<longrightarrow> heap r d = Some dn \<longrightarrow> nested dn nd)) \<and>
      (\<forall>i a nd. 0 \<le> i \<longrightarrow> i < N r \<longrightarrow> p_c (particles r ! nat i) = Some a \<longrightarrow>
         heap r a = Some nd \<longrightarrow> cell_pt nd = i))"

text \<open>What a child contributes to the occupancy of its parent: nothing for an empty
  slot, one for a leaf, its own magnitude for a branch.\<close>

definition occupancy :: "(addr \<rightharpoonup> cell) \<Rightarrow> addr option \<Rightarrow> int" where
  "occupancy h q =
     (case q of
        None \<Rightarrow> 0
      | Some d \<Rightarrow>
          (case h d of
             None \<Rightarrow> 0
           | Some dn \<Rightarrow> if 0 \<le> cell_pt dn then 1 else - cell_pt dn))"

text \<open>Slot \<open>i\<close> of the cell holds a leaf.\<close>

definition leaf_slot :: "(addr \<rightharpoonup> cell) \<Rightarrow> cell \<Rightarrow> nat \<Rightarrow> bool" where
  "leaf_slot h nd i =
     (case cell_oct nd ! i of
        None \<Rightarrow> False
      | Some d \<Rightarrow> (case h d of None \<Rightarrow> False | Some dn \<Rightarrow> 0 \<le> cell_pt dn))"


text \<open>The state of a cell after maintenance: a branch holds at least two particles and
  its \<open>pt\<close> is minus the sum of its children's contributions; the particle of a leaf is
  inside the leaf's box.\<close>

definition maintained :: "Rebound \<Rightarrow> addr \<Rightarrow> bool" where
  "maintained r a =
     (case heap r a of
        None \<Rightarrow> False
      | Some nd \<Rightarrow>
          if cell_pt nd < 0
          then cell_pt nd \<le> - 2 \<and>
               - cell_pt nd = sum_list (map (occupancy (heap r)) (cell_oct nd))
          else inside_cell (particles r ! nat (cell_pt nd)) nd)"

text \<open>Two particle records that differ at most in the back-reference.\<close>

definition same_particle :: "Particle \<Rightarrow> Particle \<Rightarrow> bool" where
  "same_particle p p' = (p_x p' = p_x p \<and> p_y p' = p_y p \<and> p_z p' = p_z p \<and> p_m p' = p_m p)"

text \<open>What maintenance of one subtree may do to a cell outside it: nothing, or, to a
  leaf, write the new index of its particle when that particle was moved in the particle
  array.\<close>

definition relabelled :: "Rebound \<Rightarrow> Rebound \<Rightarrow> addr \<Rightarrow> bool" where
  "relabelled r r' a =
     (case heap r a of
        None \<Rightarrow> heap r' a = None
      | Some c \<Rightarrow>
          (case heap r' a of
             None \<Rightarrow> False
           | Some c' \<Rightarrow>
               c'\<lparr>cell_pt := cell_pt c\<rparr> = c \<and>
               (if cell_pt c < 0 then cell_pt c' = cell_pt c
                else 0 \<le> cell_pt c' \<and>
                     same_particle (particles r ! nat (cell_pt c))
                       (particles r' ! nat (cell_pt c')))))"

text \<open>The fields of the state that maintenance leaves alone.\<close>

definition same_config :: "Rebound \<Rightarrow> Rebound \<Rightarrow> bool" where
  "same_config r r' =
     (r'\<lparr>heap := heap r, particles := particles r\<rparr> = r \<and>
      length (particles r') = length (particles r))"

text \<open>The result of maintaining the subtree at \<open>p\<close> in state \<open>r\<close>: the subtree is kept
  (\<open>q = p\<close>) or pruned (\<open>q = None\<close>); what is kept is a tree made of cells of the old one,
  all of them maintained; the invariant holds again; cells outside the old subtree are at
  most relabelled.\<close>

definition update_post :: "nat \<Rightarrow> Rebound \<Rightarrow> addr option \<Rightarrow> Rebound \<Rightarrow> addr option \<Rightarrow> bool" where
  "update_post n r p r' q =
     ((q = None \<or> q = p) \<and>
      wf_tree n (heap r') q \<and>
      nodes n (heap r') q \<subseteq> nodes n (heap r) p \<and>
      tree_inv r' \<and>
      (\<forall>a \<in> nodes n (heap r') q. maintained r' a) \<and>
      (\<forall>a. a \<notin> nodes n (heap r) p \<longrightarrow> relabelled r r' a) \<and>
      same_config r r')"

definition update_contract ::
  "nat \<Rightarrow> (Rebound \<Rightarrow> addr option \<Rightarrow> error + Rebound \<times> addr option) \<Rightarrow> bool" where
  "update_contract n upd =
     (\<forall>r p r' q. tree_inv r \<longrightarrow> wf_tree n (heap r) p \<longrightarrow> upd r p = Inr (r', q) \<longrightarrow>
        update_post n r p r' q)"



section \<open>Moments of a cell\<close>

text \<open>The cell with its mass and centre of mass blanked: two cells that agree on it
  differ at most in their moments.\<close>

definition moments_cleared :: "cell \<Rightarrow> cell" where
  "moments_cleared c = c\<lparr>cell_m := 0, cell_mx := 0, cell_my := 0, cell_mz := 0\<rparr>"

definition same_but_moments :: "(addr \<rightharpoonup> cell) \<Rightarrow> (addr \<rightharpoonup> cell) \<Rightarrow> bool" where
  "same_but_moments h h' =
     (\<forall>a. map_option moments_cleared (h' a) = map_option moments_cleared (h a))"

text \<open>Everything of the state but the store.\<close>

definition rest_of :: "Rebound \<Rightarrow> Rebound" where
  "rest_of r = r\<lparr>heap := Map.empty\<rparr>"

text \<open>The cells of the children of \<open>nd\<close> in the slots \<open>os\<close>, in that order; an empty slot
  has none.\<close>

definition child_cells :: "(addr \<rightharpoonup> cell) \<Rightarrow> cell \<Rightarrow> nat list \<Rightarrow> cell list" where
  "child_cells h nd os =
     List.map_filter (\<lambda>o'. case cell_oct nd ! o' of None \<Rightarrow> None | Some d \<Rightarrow> h d) os"

text \<open>The sum of a list of doubles as the loop computes it: starting from 0, the elements
  are added one after the other, each addition rounding.\<close>

definition fsum :: "arith \<Rightarrow> real list \<Rightarrow> real" where
  "fsum ar xs = foldl (fadd ar) 0 xs"

text \<open>The mass-weighted centre of mass of a child along one axis (\<open>f\<close> is \<open>cell_mx\<close>,
  \<open>cell_my\<close> or \<open>cell_mz\<close>): \<^verbatim>\<open>d->mx*d_m\<close>.\<close>

definition weighted :: "arith \<Rightarrow> (cell \<Rightarrow> real) \<Rightarrow> cell \<Rightarrow> real" where
  "weighted ar f k = fmul ar (f k) (cell_m k)"

text \<open>What the claims on sums need of the arithmetic, and what rounding to the nearest
  double gives on finite values: the sum of two non-negative doubles is non-negative, and
  zero only if both are zero; \<open>0 + 0\<close> is \<open>0\<close>; a product with \<open>0\<close> is \<open>0\<close>.\<close>

definition sound_sums :: "arith \<Rightarrow> bool" where
  "sound_sums ar =
     ((\<forall>x y. 0 \<le> x \<longrightarrow> 0 \<le> y \<longrightarrow> 0 \<le> fadd ar x y \<and> (fadd ar x y = 0 \<longrightarrow> x = 0 \<and> y = 0)) \<and>
      fadd ar 0 0 = 0 \<and> (\<forall>x. fmul ar x 0 = 0))"

text \<open>What a call of the aggregation on the tree below \<open>a\<close> guarantees: only moments
  are written, and only in the cells of that tree; when no particle has a negative mass,
  no cell of that tree gets one.\<close>

definition gravity_post :: "arith \<Rightarrow> nat \<Rightarrow> Rebound \<Rightarrow> addr \<Rightarrow> Rebound \<Rightarrow> bool" where
  "gravity_post ar n r a r' =
     (rest_of r' = rest_of r \<and> same_but_moments (heap r) (heap r') \<and>
      (\<forall>b. b \<notin> nodes n (heap r) (Some a) \<longrightarrow> heap r' b = heap r b) \<and>
      (sound_sums ar \<longrightarrow> (\<forall>p\<in>set (particles r). 0 \<le> p_m p) \<longrightarrow>
         (\<forall>b\<in>nodes n (heap r) (Some a). \<forall>c. heap r' b = Some c \<longrightarrow> 0 \<le> cell_m c)))"

text \<open>The precondition of the aggregation: the cells below \<open>p\<close> form a tree whose leaves
  have no children and hold indices into the particle array.\<close>

definition leaf_ready :: "Rebound \<Rightarrow> cell \<Rightarrow> bool" where
  "leaf_ready r c =
     (0 \<le> cell_pt c \<longrightarrow>
        nat (cell_pt c) < length (particles r) \<and> (\<forall>q\<in>set (cell_oct c). q = None))"

definition gravity_ready :: "nat \<Rightarrow> Rebound \<Rightarrow> addr option \<Rightarrow> bool" where
  "gravity_ready n r p =
     (wf_tree n (heap r) p \<and>
      (\<forall>b\<in>nodes n (heap r) p. case heap r b of None \<Rightarrow> True | Some c \<Rightarrow> leaf_ready r c))"

definition gravity_contract ::
  "arith \<Rightarrow> nat \<Rightarrow> (Rebound \<Rightarrow> addr \<Rightarrow> error + Rebound) \<Rightarrow> bool" where
  "gravity_contract ar n grav =
     (\<forall>r a. gravity_ready n r (Some a) \<longrightarrow> (\<exists>r'. grav r a = Inr r' \<and> gravity_post ar n r a r'))"

text \<open>The cell at an address after an operation, if the operation returned.\<close>

definition cell_after :: "error + Rebound \<Rightarrow> addr \<Rightarrow> cell option" where
  "cell_after res a = (case res of Inl e \<Rightarrow> None | Inr r \<Rightarrow> heap r a)"

section \<open>Concrete states\<close>

text \<open>The scenario of the spec: two particles at \<open>(0.1, 0.1, 0.1)\<close> and
  \<open>(-0.1, -0.1, -0.1)\<close>, one root box of width 1 centred at the origin, no cell
  allocated yet.\<close>

definition two_particles :: Rebound where
  "two_particles =
     \<lparr>particles = [\<lparr>p_x = 0.1, p_y = 0.1, p_z = 0.1, p_m = 1, p_c = None\<rparr>,
                   \<lparr>p_x = - 0.1, p_y = - 0.1, p_z = - 0.1, p_m = 1, p_c = None\<rparr>],
      N = 2, N_tree_fixed = 0, tree_root = None,
      root_nx = 1, root_ny = 1, root_nz = 1, root_n = 1,
      boxsize = 1, boxsize_x = 1, boxsize_y = 1, boxsize_z = 1,
      heap = Map.empty, brk = 0\<rparr>"

text \<open>A tree of three particles in the root box of width 1 centred at the origin: the
  root cell 0 is a branch with the leaves 1, 3 and 2 in its octants 0, 1 and 7. Particle
  2 has since moved to \<open>x = -0.6\<close>, out of its leaf (centre \<open>-0.25\<close>, width \<open>0.5\<close>).\<close>

definition leaf_cell :: "real \<Rightarrow> real \<Rightarrow> real \<Rightarrow> int \<Rightarrow> cell" where
  "leaf_cell x y z i =
     \<lparr>cell_x = x, cell_y = y, cell_z = z, cell_w = 0.5, cell_m = 0, cell_mx = 0, cell_my = 0,
      cell_mz = 0, cell_oct = replicate 8 None, cell_pt = i\<rparr>"


text \<open>A tree of two particles: the root cell 0 is a branch with the leaves 1 and 2 in
  its octants 0 and 7. Particle 1 has since moved to \<open>x = -0.6\<close>, out of its leaf.\<close>

definition two_particles_moved :: Rebound where
  "two_particles_moved =
     \<lparr>particles = [\<lparr>p_x = 0.1, p_y = 0.1, p_z = 0.1, p_m = 1, p_c = Some 1\<rparr>,
                   \<lparr>p_x = - 0.6, p_y = - 0.1, p_z = - 0.1, p_m = 1, p_c = Some 2\<rparr>],
      N = 2, N_tree_fixed = 0, tree_root = Some [Some 0],
      root_nx = 1, root_ny = 1, root_nz = 1, root_n = 1,
      boxsize = 1, boxsize_x = 1, boxsize_y = 1, boxsize_z = 1,
      heap = [0 \<mapsto> \<lparr>cell_x = 0, cell_y = 0, cell_z = 0, cell_w = 1, cell_m = 0, cell_mx = 0,
                      cell_my = 0, cell_mz = 0,
                      cell_oct = [Some 1, None, None, None, None, None, None, Some 2],
                      cell_pt = - 2\<rparr>,
              1 \<mapsto> leaf_cell 0.25 0.25 0.25 0,
              2 \<mapsto> leaf_cell (- 0.25) (- 0.25) (- 0.25) 1],
      brk = 3\<rparr>"

text \<open>The tree of two particles with both particles inside their leaves, and a third
  particle at \<open>(0.3, 0.3, 0.3)\<close> that is not in the tree yet. It belongs to octant 0 of
  the root, where leaf 1 holds particle 0.\<close>

definition third_particle :: Rebound where
  "third_particle =
     two_particles_moved\<lparr>particles :=
       [\<lparr>p_x = 0.1, p_y = 0.1, p_z = 0.1, p_m = 1, p_c = Some 1\<rparr>,
        \<lparr>p_x = - 0.1, p_y = - 0.1, p_z = - 0.1, p_m = 1, p_c = Some 2\<rparr>,
        \<lparr>p_x = 0.3, p_y = 0.3, p_z = 0.3, p_m = 1, p_c = None\<rparr>], N := 3\<rparr>"



section \<open>The footprint of an insertion\<close>

text \<open>The cells reached from \<open>a\<close> through the \<open>oct\<close> pointers of the store, at any
  depth.\<close>

inductive_set reach :: "(addr \<rightharpoonup> cell) \<Rightarrow> addr \<Rightarrow> addr set"
  for h :: "addr \<rightharpoonup> cell" and a :: addr where
  reach_self: "a \<in> reach h a"
| reach_step: "b \<in> reach h a \<Longrightarrow> h b = Some c \<Longrightarrow> Some d \<in> set (cell_oct c) \<Longrightarrow> d \<in> reach h a"

definition reach_opt :: "(addr \<rightharpoonup> cell) \<Rightarrow> addr option \<Rightarrow> addr set" where
  "reach_opt h q = (case q of None \<Rightarrow> {} | Some a \<Rightarrow> reach h a)"

text \<open>How the cells of a store evolve under insertion, \<open>B\<close> being the first address the
  allocator had not handed out before: a cell stays allocated, keeps its centre and width,
  and each of its slots either keeps its pointer or goes from \<^verbatim>\<open>NULL\<close> to a cell allocated
  since.\<close>

definition grown :: "addr \<Rightarrow> (addr \<rightharpoonup> cell) \<Rightarrow> (addr \<rightharpoonup> cell) \<Rightarrow> bool" where
  "grown B h h' =
     (\<forall>b c0. h b = Some c0 \<longrightarrow>
        (\<exists>c1. h' b = Some c1 \<and> same_geometry c0 c1 \<and>
           length (cell_oct c1) = length (cell_oct c0) \<and>
           (\<forall>i<length (cell_oct c0).
              cell_oct c1 ! i = cell_oct c0 ! i \<or>
              (cell_oct c0 ! i = None \<and> (\<exists>f\<ge>B. cell_oct c1 ! i = Some f)))))"

text \<open>The cells allocated since point only to cells allocated since.\<close>

definition fresh_closed :: "addr \<Rightarrow> (addr \<rightharpoonup> cell) \<Rightarrow> bool" where
  "fresh_closed B h = (\<forall>b c f. B \<le> b \<longrightarrow> h b = Some c \<longrightarrow> Some f \<in> set (cell_oct c) \<longrightarrow> B \<le> f)"

text \<open>No released address below \<open>B\<close> holds a cell again.\<close>

definition no_revival :: "addr \<Rightarrow> (addr \<rightharpoonup> cell) \<Rightarrow> (addr \<rightharpoonup> cell) \<Rightarrow> bool" where
  "no_revival B h h' = (\<forall>b<B. h b = None \<longrightarrow> h' b = None)"

text \<open>Every cell has its eight slots (\<^verbatim>\<open>struct cell* oct[8]\<close>).\<close>

definition eight_slots :: "(addr \<rightharpoonup> cell) \<Rightarrow> bool" where
  "eight_slots h = (\<forall>a c. h a = Some c \<longrightarrow> length (cell_oct c) = 8)"

text \<open>What an insertion into the slot \<open>node\<close> guarantees: the returned cell is the cell of
  the slot, or a new one for an empty slot; the cells allocated before that are not
  reached from the slot are untouched; and the store evolves as described above.\<close>

definition add_post :: "Rebound \<Rightarrow> addr option \<Rightarrow> Rebound \<Rightarrow> addr \<Rightarrow> bool" where
  "add_post r node r' c =
     (alloc_ok r' \<and> eight_slots (heap r') \<and> brk r \<le> brk r' \<and>
      (case node of None \<Rightarrow> c = brk r | Some a \<Rightarrow> c = a) \<and>
      (\<forall>b. b < brk r \<longrightarrow> b \<notin> reach_opt (heap r) node \<longrightarrow> heap r' b = heap r b) \<and>
      grown (brk r) (heap r) (heap r') \<and> fresh_closed (brk r) (heap r') \<and>
      no_revival (brk r) (heap r) (heap r'))"

definition add_contract ::
  "(Rebound \<Rightarrow> addr option \<Rightarrow> int \<Rightarrow> addr option \<Rightarrow> nat \<Rightarrow> error + Rebound \<times> addr) \<Rightarrow> bool" where
  "add_contract add =
     (\<forall>r node pt parent o' r' c.
        alloc_ok r \<longrightarrow> eight_slots (heap r) \<longrightarrow> add r node pt parent o' = Inr (r', c) \<longrightarrow>
        add_post r node r' c)"

text \<open>The state after an insertion, if it returned.\<close>

definition added :: "error + Rebound \<times> addr \<Rightarrow> error + Rebound" where
  "added res = (case res of Inl e \<Rightarrow> Inl e | Inr (r, c) \<Rightarrow> Inr r)"

section \<open>Memory access\<close>

lemma rbind_Inr [simp]: "rbind v f = Inr y \<longleftrightarrow> (\<exists>x. v = Inr x \<and> f x = Inr y)"
  by (cases v) (auto simp: rbind_def)

lemma rbind_simps [simp]: "rbind (Inr x) f = f x" "rbind (Inl e) f = Inl e"
  by (auto simp: rbind_def)

lemma get_cell_Inr [simp]: "get_cell r a = Inr nd \<longleftrightarrow> heap r a = Some nd"
  by (auto simp: get_cell_def split: option.splits)

lemma get_cell_Some [simp]: "heap r a = Some nd \<Longrightarrow> get_cell r a = Inr nd"
  by (simp add: get_cell_def)

lemma get_particle_Inr:
  "get_particle r i = Inr p \<longleftrightarrow> 0 \<le> i \<and> nat i < length (particles r) \<and> p = particles r ! nat i"
  by (auto simp: get_particle_def)

lemma get_particle_valid [simp]:
  "0 \<le> i \<Longrightarrow> nat i < length (particles r) \<Longrightarrow> get_particle r i = Inr (particles r ! nat i)"
  by (simp add: get_particle_def)



lemma set_oct_Inr:
  "set_oct r a i q = Inr r' \<longleftrightarrow>
     (\<exists>nd. heap r a = Some nd \<and> r' = set_cell r a (nd\<lparr>cell_oct := (cell_oct nd)[i := q]\<rparr>))"
  by (auto simp: set_oct_def)

lemma heap_set_cell [simp]: "heap (set_cell r a nd) = (heap r)(a \<mapsto> nd)"
  by (simp add: set_cell_def)

lemma heap_free_cell [simp]: "heap (free_cell r a) = (heap r)(a := None)"
  by (simp add: free_cell_def)

lemma particles_set_cell [simp]: "particles (set_cell r a nd) = particles r"
  by (simp add: set_cell_def)

lemma particles_free_cell [simp]: "particles (free_cell r a) = particles r"
  by (simp add: free_cell_def)

lemma N_set_cell [simp]: "N (set_cell r a nd) = N r"
  by (simp add: set_cell_def)

lemma N_free_cell [simp]: "N (free_cell r a) = N r"
  by (simp add: free_cell_def)

section \<open>Octant selection and the two-particle scenario\<close>

lemmas mem_defs = rbind_def get_cell_def set_cell_def free_cell_def get_particle_def
  set_particle_def set_particle_c_def set_oct_def

lemma octant_less_8: "tree_get_octant_for_particle_in_cell p nd < 8"
  by (simp add: tree_get_octant_for_particle_in_cell_def)

lemma two_particles_tree:
  "(case rbind (tree_add_particle_to_cell 2 two_particles None 0 None 0)
           (\<lambda>(r1, a). tree_add_particle_to_cell 2 r1 (Some a) 1 None 0) of
      Inl e \<Rightarrow> False
    | Inr (r2, a) \<Rightarrow>
        (case heap r2 a of
           None \<Rightarrow> False
         | Some rt \<Rightarrow>
             cell_x rt = 0 \<and> cell_y rt = 0 \<and> cell_z rt = 0 \<and> cell_w rt = 1 \<and>
             cell_pt rt = - 2 \<and>
             (case cell_oct rt of
                [Some c0, None, None, None, None, None, None, Some c7] \<Rightarrow>
                  (case (heap r2 c0, heap r2 c7) of
                     (Some l0, Some l7) \<Rightarrow>
                       cell_pt l0 = 0 \<and> cell_oct l0 = replicate 8 None \<and>
                       cell_pt l7 = 1 \<and> cell_oct l7 = replicate 8 None \<and>
                       map p_c (particles r2) = [Some c0, Some c7]
                   | _ \<Rightarrow> False)
              | _ \<Rightarrow> False)))"
  by code_simp

text \<open>C7: inserting the particles at \<open>(0.1, 0.1, 0.1)\<close> (index 0) and
  \<open>(-0.1, -0.1, -0.1)\<close> (index 1) into the empty root box of width 1 centred at the
  origin gives a root cell at the origin that is a branch with \<open>pt = -2\<close> and exactly two
  children, both leaves without children: octant 0 holds particle 0 (the positive one)
  and octant 7 holds particle 1 (the negative one), and each particle points back to its
  leaf. The octant's bit 0, 1, 2 is set exactly when the particle's x, y, z is strictly
  below the cell's centre, so a coordinate equal to the centre goes to the positive
  side.\<close>

theorem insert_two_particles:
  "(case rbind (tree_add_particle_to_cell 2 two_particles None 0 None 0)
           (\<lambda>(r1, a). tree_add_particle_to_cell 2 r1 (Some a) 1 None 0) of
      Inl e \<Rightarrow> False
    | Inr (r2, a) \<Rightarrow>
        (case heap r2 a of
           None \<Rightarrow> False
         | Some rt \<Rightarrow>
             cell_x rt = 0 \<and> cell_y rt = 0 \<and> cell_z rt = 0 \<and> cell_w rt = 1 \<and>
             cell_pt rt = - 2 \<and>
             (case cell_oct rt of
                [Some c0, None, None, None, None, None, None, Some c7] \<Rightarrow>
                  (case (heap r2 c0, heap r2 c7) of
                     (Some l0, Some l7) \<Rightarrow>
                       cell_pt l0 = 0 \<and> cell_oct l0 = replicate 8 None \<and>
                       cell_pt l7 = 1 \<and> cell_oct l7 = replicate 8 None \<and>
                       map p_c (particles r2) = [Some c0, Some c7]
                   | _ \<Rightarrow> False)
              | _ \<Rightarrow> False))) \<and>
   (\<forall>p nd. odd (tree_get_octant_for_particle_in_cell p nd) = (p_x p < cell_x nd)) \<and>
   (\<forall>p nd. odd (tree_get_octant_for_particle_in_cell p nd div 2) = (p_y p < cell_y nd)) \<and>
   (\<forall>p nd. odd (tree_get_octant_for_particle_in_cell p nd div 4) = (p_z p < cell_z nd)) \<and>
   (\<forall>p nd. tree_get_octant_for_particle_in_cell p
              (nd\<lparr>cell_x := p_x p, cell_y := p_y p, cell_z := p_z p\<rparr>) = 0)"
  using two_particles_tree
  by (auto simp: tree_get_octant_for_particle_in_cell_def)

section \<open>Trees in the store\<close>

lemma disjoint_sets_nth:
  "disjoint_sets Ss \<longleftrightarrow> (\<forall>i<length Ss. \<forall>j<length Ss. i \<noteq> j \<longrightarrow> Ss ! i \<inter> Ss ! j = {})"
proof (induction Ss)
  case Nil
  then show ?case by simp
next
  case (Cons S Ss)
  have "(\<forall>i<Suc (length Ss). \<forall>j<Suc (length Ss). i \<noteq> j \<longrightarrow> (S # Ss) ! i \<inter> (S # Ss) ! j = {}) \<longleftrightarrow>
        (\<forall>j<length Ss. S \<inter> Ss ! j = {}) \<and>
        (\<forall>i<length Ss. \<forall>j<length Ss. i \<noteq> j \<longrightarrow> Ss ! i \<inter> Ss ! j = {})"
    (is "?L \<longleftrightarrow> ?A \<and> ?B")
  proof (intro iffI conjI allI impI)
    fix j assume ?L "j < length Ss"
    then show "S \<inter> Ss ! j = {}" by (metis Suc_less_eq nat.simps(3) nth_Cons_0 nth_Cons_Suc zero_less_Suc)
  next
    fix i j assume ?L "i < length Ss" "j < length Ss" "i \<noteq> j"
    then show "Ss ! i \<inter> Ss ! j = {}"
      by (metis Suc_less_eq nat.inject nth_Cons_Suc)
  next
    fix i j assume AB: "?A \<and> ?B" and ij: "i < Suc (length Ss)" "j < Suc (length Ss)" "i \<noteq> j"
    show "(S # Ss) ! i \<inter> (S # Ss) ! j = {}"
    proof (cases i)
      case 0
      with ij obtain j' where "j = Suc j'" "j' < length Ss" by (cases j) auto
      with 0 AB show ?thesis by simp
    next
      case (Suc i')
      show ?thesis
      proof (cases j)
        case 0
        with Suc ij AB show ?thesis by (auto simp: Int_commute)
      next
        case (Suc j')
        with \<open>i = Suc i'\<close> ij AB show ?thesis by simp
      qed
    qed
  qed
  then show ?case
    using Cons.IH by (simp add: all_set_conv_all_nth)
qed

lemma wf_tree_Suc:
  "wf_tree (Suc n) h (Some a) \<longleftrightarrow>
     (\<exists>nd. h a = Some nd \<and> length (cell_oct nd) = 8 \<and>
        (\<forall>i<8. wf_tree n h (cell_oct nd ! i) \<and> a \<notin> nodes n h (cell_oct nd ! i)) \<and>
        (\<forall>i<8. \<forall>j<8. i \<noteq> j \<longrightarrow>
           nodes n h (cell_oct nd ! i) \<inter> nodes n h (cell_oct nd ! j) = {}))"
  by (cases "h a") (simp_all add: disjoint_sets_nth all_set_conv_all_nth cong: conj_cong)

lemma nodes_Suc:
  "h a = Some nd \<Longrightarrow>
   nodes (Suc n) h (Some a) = insert a (\<Union>i<length (cell_oct nd). nodes n h (cell_oct nd ! i))"
  by (force simp: in_set_conv_nth)

lemma self_in_nodes [simp]: "a \<in> nodes n h (Some a)"
  by (cases n) auto

lemma nodes_cong:
  "(\<forall>b \<in> nodes n h p. map_option cell_oct (h' b) = map_option cell_oct (h b)) \<Longrightarrow>
   nodes n h' p = nodes n h p"
proof (induction n arbitrary: p)
  case 0
  then show ?case by (cases p) auto
next
  case (Suc n)
  show ?case
  proof (cases p)
    case None
    then show ?thesis by simp
  next
    case (Some a)
    have a: "map_option cell_oct (h' a) = map_option cell_oct (h a)"
      using Suc.prems Some by simp
    show ?thesis
    proof (cases "h a")
      case None
      with a Some show ?thesis by simp
    next
      case (Some nd)
      with a obtain nd' where nd': "h' a = Some nd'" "cell_oct nd' = cell_oct nd"
        by auto
      have "nodes n h' q = nodes n h q" if "q \<in> set (cell_oct nd)" for q
        using that Suc.prems \<open>p = Some a\<close> Some by (intro Suc.IH) auto
      then show ?thesis
        using \<open>p = Some a\<close> Some nd' by simp
    qed
  qed
qed

lemma wf_tree_cong:
  "(\<forall>b \<in> nodes n h p. map_option cell_oct (h' b) = map_option cell_oct (h b)) \<Longrightarrow>
   wf_tree n h' p = wf_tree n h p"
proof (induction n arbitrary: p)
  case 0
  then show ?case by (cases p) auto
next
  case (Suc n)
  show ?case
  proof (cases p)
    case None
    then show ?thesis by simp
  next
    case (Some a)
    have a: "map_option cell_oct (h' a) = map_option cell_oct (h a)"
      using Suc.prems Some by simp
    show ?thesis
    proof (cases "h a")
      case None
      with a Some show ?thesis by simp
    next
      case (Some nd)
      with a obtain nd' where nd': "h' a = Some nd'" "cell_oct nd' = cell_oct nd"
        by auto
      have sub: "\<forall>b \<in> nodes n h q. map_option cell_oct (h' b) = map_option cell_oct (h b)"
        if "q \<in> set (cell_oct nd)" for q
        using that Suc.prems \<open>p = Some a\<close> Some by auto
      have 1: "nodes n h' q = nodes n h q" if "q \<in> set (cell_oct nd)" for q
        using sub[OF that] by (rule nodes_cong)
      have 2: "wf_tree n h' q = wf_tree n h q" if "q \<in> set (cell_oct nd)" for q
        using sub[OF that] by (rule Suc.IH)
      have 3: "map (nodes n h') (cell_oct nd) = map (nodes n h) (cell_oct nd)"
        using 1 by simp
      show ?thesis
        using \<open>p = Some a\<close> Some nd' by (simp add: 1 2 cong: map_cong)
    qed
  qed
qed

lemma child_in_nodes:
  "wf_tree n h p \<Longrightarrow> b \<in> nodes n h p \<Longrightarrow> h b = Some nd \<Longrightarrow> Some d \<in> set (cell_oct nd) \<Longrightarrow>
   d \<in> nodes n h p"
proof (induction n arbitrary: p)
  case 0
  then show ?case by (cases p) auto
next
  case (Suc n)
  from Suc.prems obtain a where p: "p = Some a" by (cases p) auto
  from Suc.prems p obtain na where na: "h a = Some na"
    and wf: "\<forall>q \<in> set (cell_oct na). wf_tree n h q"
    by (auto split: option.splits)
  show ?case
  proof (cases "b = a")
    case True
    with Suc.prems na have "Some d \<in> set (cell_oct na)" by simp
    moreover have "d \<in> nodes n h (Some d)" by simp
    ultimately show ?thesis using p na by (auto intro!: bexI[of _ "Some d"])
  next
    case False
    with Suc.prems p na obtain q where q: "q \<in> set (cell_oct na)" "b \<in> nodes n h q"
      by auto
    with wf Suc.IH[of q] Suc.prems have "d \<in> nodes n h q" by blast
    with q show ?thesis using p na by auto
  qed
qed

declare nodes.simps(3) [simp del] wf_tree.simps(3) [simp del]

section \<open>Cells outside the maintained subtree\<close>

lemma same_particle_refl [simp]: "same_particle p p"
  by (simp add: same_particle_def)

lemma same_particle_trans:
  "same_particle p p1 \<Longrightarrow> same_particle p1 p2 \<Longrightarrow> same_particle p p2"
  by (simp add: same_particle_def)

lemma same_particle_c [simp]: "same_particle p (p\<lparr>p_c := q\<rparr>)"
  by (simp add: same_particle_def)

lemma inside_cell_cong:
  "same_particle p p' \<Longrightarrow> same_geometry c c' \<Longrightarrow> inside_cell p c \<Longrightarrow> inside_cell p' c'"
  by (simp add: same_particle_def same_geometry_def inside_cell_def)

lemma relabelled_refl [simp]: "relabelled r r a"
  by (auto simp: relabelled_def split: option.splits)

lemma cell_but_pt:
  assumes "c'\<lparr>cell_pt := k\<rparr> = c"
  shows "cell_oct c' = cell_oct c" "same_geometry c c'" "cell_pt c = k"
    "cell_m c' = cell_m c" "cell_mx c' = cell_mx c" "cell_my c' = cell_my c" "cell_mz c' = cell_mz c"
  using arg_cong[OF assms, of cell_oct] arg_cong[OF assms, of cell_x]
    arg_cong[OF assms, of cell_y] arg_cong[OF assms, of cell_z] arg_cong[OF assms, of cell_w]
    arg_cong[OF assms, of cell_pt] arg_cong[OF assms, of cell_m] arg_cong[OF assms, of cell_mx]
    arg_cong[OF assms, of cell_my] arg_cong[OF assms, of cell_mz]
  by (simp_all add: same_geometry_def)

lemma cell_but_pt_trans:
  assumes "c1\<lparr>cell_pt := cell_pt c\<rparr> = c" "c2\<lparr>cell_pt := cell_pt c1\<rparr> = c1"
  shows "c2\<lparr>cell_pt := cell_pt c\<rparr> = c"
proof -
  have "c2\<lparr>cell_pt := cell_pt c1\<rparr>\<lparr>cell_pt := cell_pt c\<rparr> = c"
    using assms by simp
  then show ?thesis by simp
qed

lemma relabelled_None: "heap r a = None \<Longrightarrow> relabelled r r' a \<longleftrightarrow> heap r' a = None"
  by (simp add: relabelled_def)

lemma relabelled_Some:
  "heap r a = Some c \<Longrightarrow>
   relabelled r r' a \<longleftrightarrow>
     (\<exists>c'. heap r' a = Some c' \<and> c'\<lparr>cell_pt := cell_pt c\<rparr> = c \<and>
        (if cell_pt c < 0 then cell_pt c' = cell_pt c
         else 0 \<le> cell_pt c' \<and>
              same_particle (particles r ! nat (cell_pt c)) (particles r' ! nat (cell_pt c'))))"
  by (cases "heap r' a") (simp_all add: relabelled_def)

lemma relabelled_trans:
  assumes 1: "relabelled r r1 a" and 2: "relabelled r1 r2 a"
  shows "relabelled r r2 a"
proof (cases "heap r a")
  case None
  with 1 2 show ?thesis by (simp add: relabelled_None)
next
  case (Some c)
  from 1 Some obtain c1 where c1: "heap r1 a = Some c1" "c1\<lparr>cell_pt := cell_pt c\<rparr> = c"
    "if cell_pt c < 0 then cell_pt c1 = cell_pt c
     else 0 \<le> cell_pt c1 \<and> same_particle (particles r ! nat (cell_pt c)) (particles r1 ! nat (cell_pt c1))"
    by (auto simp: relabelled_Some)
  from 2 c1(1) obtain c2 where c2: "heap r2 a = Some c2" "c2\<lparr>cell_pt := cell_pt c1\<rparr> = c1"
    "if cell_pt c1 < 0 then cell_pt c2 = cell_pt c1
     else 0 \<le> cell_pt c2 \<and> same_particle (particles r1 ! nat (cell_pt c1)) (particles r2 ! nat (cell_pt c2))"
    by (auto simp: relabelled_Some)
  have "c2\<lparr>cell_pt := cell_pt c\<rparr> = c"
    using c1(2) c2(2) by (rule cell_but_pt_trans)
  moreover have "if cell_pt c < 0 then cell_pt c2 = cell_pt c
     else 0 \<le> cell_pt c2 \<and> same_particle (particles r ! nat (cell_pt c)) (particles r2 ! nat (cell_pt c2))"
    using c1(3) c2(3) by (auto split: if_splits intro: same_particle_trans)
  ultimately show ?thesis
    using Some c2(1) by (simp add: relabelled_Some)
qed

lemma relabelledI:
  assumes "heap r' a = heap r a"
    and "\<And>c. heap r a = Some c \<Longrightarrow> 0 \<le> cell_pt c \<Longrightarrow>
           same_particle (particles r ! nat (cell_pt c)) (particles r' ! nat (cell_pt c))"
  shows "relabelled r r' a"
proof (cases "heap r a")
  case None
  with assms show ?thesis by (simp add: relabelled_None)
next
  case (Some c)
  with assms show ?thesis by (simp add: relabelled_Some)
qed

lemma relabelled_oct:
  "relabelled r r' b \<Longrightarrow> map_option cell_oct (heap r' b) = map_option cell_oct (heap r b)"
proof (cases "heap r b")
  case None
  then show "relabelled r r' b \<Longrightarrow> ?thesis" by (simp add: relabelled_None)
next
  case (Some c)
  then show "relabelled r r' b \<Longrightarrow> ?thesis"
    by (auto simp: relabelled_Some dest: cell_but_pt(1))
qed

lemma relabelled_occupancy:
  "relabelled r r' d \<Longrightarrow> occupancy (heap r') (Some d) = occupancy (heap r) (Some d)"
proof (cases "heap r d")
  case None
  then show "relabelled r r' d \<Longrightarrow> ?thesis" by (simp add: relabelled_None occupancy_def)
next
  case (Some c)
  then show "relabelled r r' d \<Longrightarrow> ?thesis"
    by (auto simp: relabelled_Some occupancy_def split: if_splits)
qed

lemma maintained_relabelled:
  assumes b: "relabelled r r' b" and nd: "heap r b = Some nd"
    and ch: "\<And>d. Some d \<in> set (cell_oct nd) \<Longrightarrow> relabelled r r' d"
    and m: "maintained r b"
  shows "maintained r' b"
proof -
  from b nd obtain nd' where nd': "heap r' b = Some nd'" "nd'\<lparr>cell_pt := cell_pt nd\<rparr> = nd"
    and pt: "if cell_pt nd < 0 then cell_pt nd' = cell_pt nd
             else 0 \<le> cell_pt nd' \<and>
                  same_particle (particles r ! nat (cell_pt nd)) (particles r' ! nat (cell_pt nd'))"
    by (auto simp: relabelled_Some)
  have oct: "cell_oct nd' = cell_oct nd" and geo: "same_geometry nd nd'"
    using cell_but_pt[OF nd'(2)] by simp_all
  have occ: "occupancy (heap r') q = occupancy (heap r) q" if "q \<in> set (cell_oct nd)" for q
  proof (cases q)
    case None
    then show ?thesis by (simp add: occupancy_def)
  next
    case (Some d)
    with that ch show ?thesis by (simp add: relabelled_occupancy)
  qed
  show ?thesis
  proof (cases "cell_pt nd < 0")
    case True
    with pt m nd nd' oct occ show ?thesis
      by (simp add: maintained_def cong: map_cong)
  next
    case False
    with pt m nd nd' geo show ?thesis
      by (auto simp: maintained_def intro: inside_cell_cong)
  qed
qed

lemma subtree_transfer:
  assumes rel: "\<And>b. b \<in> nodes n (heap r) p \<Longrightarrow> relabelled r r' b" and wf: "wf_tree n (heap r) p"
  shows "nodes n (heap r') p = nodes n (heap r) p"
    and "wf_tree n (heap r') p"
    and "\<And>b. b \<in> nodes n (heap r) p \<Longrightarrow> maintained r b \<Longrightarrow> maintained r' b"
proof -
  have oct: "\<forall>b \<in> nodes n (heap r) p. map_option cell_oct (heap r' b) = map_option cell_oct (heap r b)"
  proof
    fix b assume "b \<in> nodes n (heap r) p"
    then have "relabelled r r' b" by (rule rel)
    then show "map_option cell_oct (heap r' b) = map_option cell_oct (heap r b)"
      by (rule relabelled_oct)
  qed
  show "nodes n (heap r') p = nodes n (heap r) p"
    using oct by (rule nodes_cong)
  show "wf_tree n (heap r') p"
    using wf_tree_cong[OF oct] wf by simp
  show "maintained r' b" if b: "b \<in> nodes n (heap r) p" and m: "maintained r b" for b
  proof -
    from m obtain nd where nd: "heap r b = Some nd"
      by (cases "heap r b") (simp_all add: maintained_def)
    have ch: "relabelled r r' d" if "Some d \<in> set (cell_oct nd)" for d
      using child_in_nodes[OF wf b nd that] by (rule rel)
    show ?thesis
      using rel[OF b] nd ch m by (rule maintained_relabelled)
  qed
qed

section \<open>Preservation of the invariant\<close>

lemma tree_invI:
  assumes "N r \<le> int (length (particles r))"
    and "\<And>a nd. heap r a = Some nd \<Longrightarrow> 0 \<le> cell_pt nd \<Longrightarrow>
           cell_oct nd = replicate 8 None \<and> cell_pt nd < N r \<and>
           p_c (particles r ! nat (cell_pt nd)) = Some a"
    and "\<And>a nd d dn. heap r a = Some nd \<Longrightarrow> Some d \<in> set (cell_oct nd) \<Longrightarrow>
           heap r d = Some dn \<Longrightarrow> nested dn nd"
    and "\<And>i a nd. 0 \<le> i \<Longrightarrow> i < N r \<Longrightarrow> p_c (particles r ! nat i) = Some a \<Longrightarrow>
           heap r a = Some nd \<Longrightarrow> cell_pt nd = i"
  shows "tree_inv r"
  unfolding tree_inv_def using assms by blast

lemma tree_inv_N: "tree_inv r \<Longrightarrow> N r \<le> int (length (particles r))"
  by (simp add: tree_inv_def)

lemma tree_inv_leaf:
  assumes "tree_inv r" "heap r a = Some nd" "0 \<le> cell_pt nd"
  shows "cell_oct nd = replicate 8 None" "cell_pt nd < N r"
    "p_c (particles r ! nat (cell_pt nd)) = Some a" "nat (cell_pt nd) < length (particles r)"
proof -
  from assms show 1: "cell_oct nd = replicate 8 None" "cell_pt nd < N r"
    "p_c (particles r ! nat (cell_pt nd)) = Some a"
    unfolding tree_inv_def by blast+
  from 1(2) assms(3) tree_inv_N[OF assms(1)] show "nat (cell_pt nd) < length (particles r)"
    by linarith
qed

lemma tree_inv_nested:
  "tree_inv r \<Longrightarrow> heap r a = Some nd \<Longrightarrow> Some d \<in> set (cell_oct nd) \<Longrightarrow>
   heap r d = Some dn \<Longrightarrow> nested dn nd"
  unfolding tree_inv_def by blast

lemma tree_inv_backref:
  "tree_inv r \<Longrightarrow> 0 \<le> i \<Longrightarrow> i < N r \<Longrightarrow> p_c (particles r ! nat i) = Some a \<Longrightarrow>
   heap r a = Some nd \<Longrightarrow> cell_pt nd = i"
  unfolding tree_inv_def by blast

lemma nested_cong:
  "same_geometry dn dn' \<Longrightarrow> same_geometry nd nd' \<Longrightarrow> nested dn nd \<Longrightarrow> nested dn' nd'"
  by (simp add: same_geometry_def nested_def)

lemma same_geometry_upd [simp]:
  "same_geometry nd (nd\<lparr>cell_oct := xs, cell_pt := k\<rparr>)"
  "same_geometry nd (nd\<lparr>cell_pt := k\<rparr>)"
  "same_geometry nd (nd\<lparr>cell_oct := xs\<rparr>)"
  "same_geometry nd nd"
  by (simp_all add: same_geometry_def)

lemma tree_inv_free:
  assumes "tree_inv r"
  shows "tree_inv (free_cell r a)"
proof (rule tree_invI)
  show "N (free_cell r a) \<le> int (length (particles (free_cell r a)))"
    using tree_inv_N[OF assms] by simp
next
  fix b nd assume "heap (free_cell r a) b = Some nd" "0 \<le> cell_pt nd"
  then have "heap r b = Some nd" by (simp split: if_splits)
  from tree_inv_leaf[OF assms this \<open>0 \<le> cell_pt nd\<close>]
  show "cell_oct nd = replicate 8 None \<and> cell_pt nd < N (free_cell r a) \<and>
        p_c (particles (free_cell r a) ! nat (cell_pt nd)) = Some b"
    by simp
next
  fix b nd d dn
  assume "heap (free_cell r a) b = Some nd" "Some d \<in> set (cell_oct nd)"
    "heap (free_cell r a) d = Some dn"
  then have "heap r b = Some nd" "heap r d = Some dn" by (simp_all split: if_splits)
  with assms \<open>Some d \<in> set (cell_oct nd)\<close> show "nested dn nd"
    using tree_inv_nested by blast
next
  fix i b nd
  assume "0 \<le> i" "i < N (free_cell r a)" "p_c (particles (free_cell r a) ! nat i) = Some b"
    "heap (free_cell r a) b = Some nd"
  then have "i < N r" "p_c (particles r ! nat i) = Some b" "heap r b = Some nd"
    by (simp_all split: if_splits)
  with assms \<open>0 \<le> i\<close> show "cell_pt nd = i"
    using tree_inv_backref by blast
qed

lemma tree_inv_branch_update:
  assumes inv: "tree_inv r" and nd: "heap r a = Some nd" and neg: "cell_pt nd < 0" "k < 0"
    and sub: "set oct' \<subseteq> insert None (set (cell_oct nd))"
  shows "tree_inv (set_cell r a (nd\<lparr>cell_oct := oct', cell_pt := k\<rparr>))"
    (is "tree_inv ?r'")
proof (rule tree_invI)
  show "N ?r' \<le> int (length (particles ?r'))"
    using tree_inv_N[OF inv] by simp
next
  fix b nb assume b: "heap ?r' b = Some nb" "0 \<le> cell_pt nb"
  with neg have "b \<noteq> a" by auto
  with b have "heap r b = Some nb" by simp
  from tree_inv_leaf[OF inv this b(2)]
  show "cell_oct nb = replicate 8 None \<and> cell_pt nb < N ?r' \<and>
        p_c (particles ?r' ! nat (cell_pt nb)) = Some b"
    by simp
next
  fix b nb d dn
  assume b: "heap ?r' b = Some nb" and d: "Some d \<in> set (cell_oct nb)" "heap ?r' d = Some dn"
  obtain nb0 where nb0: "heap r b = Some nb0" "same_geometry nb0 nb"
    "set (cell_oct nb) \<subseteq> insert None (set (cell_oct nb0))"
    using b nd sub by (cases "b = a") auto
  obtain dn0 where dn0: "heap r d = Some dn0" "same_geometry dn0 dn"
    using d(2) nd by (cases "d = a") auto
  from d(1) nb0(3) have "Some d \<in> set (cell_oct nb0)" by auto
  from tree_inv_nested[OF inv nb0(1) this dn0(1)] show "nested dn nb"
    using nested_cong dn0(2) nb0(2) by blast
next
  fix i b nb
  assume i: "0 \<le> i" "i < N ?r'" "p_c (particles ?r' ! nat i) = Some b" "heap ?r' b = Some nb"
  show "cell_pt nb = i"
  proof (cases "b = a")
    case True
    with i inv nd have "cell_pt nd = i"
      using tree_inv_backref[of r i a nd] by simp
    with neg i show ?thesis by simp
  next
    case False
    with i inv show ?thesis
      using tree_inv_backref[of r i b nb] by simp
  qed
qed

section \<open>The leaf case\<close>

lemma is_inside_eq:
  "heap r a = Some nd \<Longrightarrow> 0 \<le> cell_pt nd \<Longrightarrow> nat (cell_pt nd) < length (particles r) \<Longrightarrow>
   tree_particle_is_inside_cell r a =
     Inr (if inside_cell (particles r ! nat (cell_pt nd)) nd then 1 else 0)"
  by (auto simp: tree_particle_is_inside_cell_def inside_cell_def)

lemma update_leaf_valid:
  assumes "update_leaf r a = Inr x"
  shows "\<exists>nd. heap r a = Some nd \<and> 0 \<le> cell_pt nd \<and> nat (cell_pt nd) < length (particles r)"
  using assms unfolding update_leaf_def tree_particle_is_inside_cell_def
  by (clarsimp simp: get_particle_Inr)

lemma update_leaf_inside:
  assumes "heap r a = Some nd" "0 \<le> cell_pt nd" "nat (cell_pt nd) < length (particles r)"
    "inside_cell (particles r ! nat (cell_pt nd)) nd"
  shows "update_leaf r a =
    Inr (r\<lparr>particles := (particles r)[nat (cell_pt nd) :=
               (particles r ! nat (cell_pt nd))\<lparr>p_c := Some a\<rparr>]\<rparr>, Some a)"
  using assms by (simp add: update_leaf_def is_inside_eq set_particle_c_def set_particle_def)

lemma update_leaf_fixed:
  assumes "heap r a = Some nd" "0 \<le> cell_pt nd" "nat (cell_pt nd) < length (particles r)"
    "\<not> inside_cell (particles r ! nat (cell_pt nd)) nd" "cell_pt nd < N_tree_fixed r"
  shows "update_leaf r a = Inr (r\<lparr>heap := (heap r)(a := None)\<rparr>, None)"
  using assms by (simp add: update_leaf_def is_inside_eq particles_add_fixed_def free_cell_def)

lemma update_leaf_swap:
  assumes "heap r a = Some nd" "0 \<le> cell_pt nd" "nat (cell_pt nd) < length (particles r)"
    "\<not> inside_cell (particles r ! nat (cell_pt nd)) nd" "\<not> cell_pt nd < N_tree_fixed r"
  shows "update_leaf r a =
    (if 0 \<le> N r - 1 \<and> nat (N r - 1) < length (particles r) then
       (case p_c (particles r ! nat (N r - 1)) of
          None \<Rightarrow> Inl NullPointer
        | Some t \<Rightarrow>
           (case heap r t of
              None \<Rightarrow> Inl DanglingPointer
            | Some tn \<Rightarrow>
                Inr (r\<lparr>particles := (particles r)[nat (cell_pt nd) := particles r ! nat (N r - 1),
                                                   nat (N r - 1) := particles r ! nat (cell_pt nd)],
                       heap := (heap r)(t \<mapsto> tn\<lparr>cell_pt := cell_pt nd\<rparr>, a := None)\<rparr>, None)))
     else Inl IndexOutOfBounds)"
  using assms
  by (simp add: update_leaf_def is_inside_eq particles_add_def free_cell_def set_cell_def
      get_particle_def set_particle_def get_cell_def Let_def split: option.splits)

lemma particle_c_id [simp]: "p_c p = q \<Longrightarrow> p\<lparr>p_c := q\<rparr> = p"
  by simp

text \<open>Eviction of the leaf \<open>a\<close> whose particle is above the fixed threshold and is not
  the last one: the last particle \<open>L\<close> takes the index of the evicted one.\<close>

lemma tree_inv_swap:
  assumes inv: "tree_inv r" and nd: "heap r a = Some nd" and leaf: "0 \<le> cell_pt nd"
    and L: "p_c (particles r ! nat (N r - 1)) = Some t" "heap r t = Some tn"
    and ne: "cell_pt nd \<noteq> N r - 1"
  defines "r' \<equiv> r\<lparr>particles := (particles r)[nat (cell_pt nd) := particles r ! nat (N r - 1),
                                             nat (N r - 1) := particles r ! nat (cell_pt nd)],
                   heap := (heap r)(t \<mapsto> tn\<lparr>cell_pt := cell_pt nd\<rparr>, a := None)\<rparr>"
  shows "tree_inv r'" and "\<And>b. b \<noteq> a \<Longrightarrow> relabelled r r' b"
proof -
  let ?o = "cell_pt nd" and ?L = "N r - 1" and ?ps = "particles r"
  note lf = tree_inv_leaf[OF inv nd leaf]
  have oL: "?o < ?L" "0 \<le> ?L" "?L < N r" using lf(2) ne leaf by auto
  have len: "nat ?o < length ?ps" "nat ?L < length ?ps" "nat ?o \<noteq> nat ?L"
    using lf(4) tree_inv_N[OF inv] oL leaf by auto
  have tnL: "cell_pt tn = ?L"
    using tree_inv_backref[OF inv oL(2,3) L] .
  have ta: "t \<noteq> a" using tnL nd L(2) ne by auto
  note tlf = tree_inv_leaf[OF inv L(2), unfolded tnL, OF oL(2)]
  have ps': "particles r' = ?ps[nat ?o := ?ps ! nat ?L, nat ?L := ?ps ! nat ?o]"
    and hp': "heap r' = (heap r)(t \<mapsto> tn\<lparr>cell_pt := ?o\<rparr>, a := None)"
    and N': "N r' = N r"
    by (simp_all add: r'_def)
  have at_o: "particles r' ! nat ?o = ?ps ! nat ?L"
    and at_L: "particles r' ! nat ?L = ?ps ! nat ?o"
    using len by (simp_all add: ps')
  have other: "particles r' ! nat i = ?ps ! nat i" if "0 \<le> i" "i \<noteq> ?o" "i \<noteq> ?L" for i
    using that leaf oL by (simp add: ps')
  have leaf_idx: "cell_pt nb \<noteq> ?o \<and> cell_pt nb \<noteq> ?L"
    if "heap r b = Some nb" "0 \<le> cell_pt nb" "b \<noteq> a" "b \<noteq> t" for b nb
    using tree_inv_leaf(3)[OF inv that(1,2)] that(3,4) lf(3) L(1) tnL by auto
  show inv': "tree_inv r'"
  proof (rule tree_invI)
    show "N r' \<le> int (length (particles r'))"
      using tree_inv_N[OF inv] by (simp add: ps' N')
  next
    fix b nb assume b: "heap r' b = Some nb" "0 \<le> cell_pt nb"
    show "cell_oct nb = replicate 8 None \<and> cell_pt nb < N r' \<and>
          p_c (particles r' ! nat (cell_pt nb)) = Some b"
    proof (cases "b = t")
      case True
      with b ta have "nb = tn\<lparr>cell_pt := ?o\<rparr>" by (simp add: hp')
      then show ?thesis using tlf(1) lf(2) at_o L(1) True by (simp add: N')
    next
      case False
      with b have ba: "b \<noteq> a" and hb: "heap r b = Some nb" by (auto simp: hp' split: if_splits)
      from leaf_idx[OF hb b(2) ba False] other[OF b(2)] tree_inv_leaf[OF inv hb b(2)]
      show ?thesis by (simp add: N')
    qed
  next
    fix b nb d dn
    assume b: "heap r' b = Some nb" and d: "Some d \<in> set (cell_oct nb)" "heap r' d = Some dn"
    have bt: "b \<noteq> t" using b d(1) ta tlf(1) by (auto simp: hp')
    with b have hb: "heap r b = Some nb" by (auto simp: hp' split: if_splits)
    obtain dn0 where dn0: "heap r d = Some dn0" "same_geometry dn0 dn"
      using d(2) L(2) by (cases "d = t") (auto simp: hp' split: if_splits)
    from tree_inv_nested[OF inv hb d(1) dn0(1)] show "nested dn nb"
      using nested_cong dn0(2) same_geometry_upd(4) by blast
  next
    fix i b nb
    assume i: "0 \<le> i" "i < N r'" "p_c (particles r' ! nat i) = Some b" "heap r' b = Some nb"
    have ba: "b \<noteq> a" using i(4) by (auto simp: hp')
    show "cell_pt nb = i"
    proof (cases "i = ?o")
      case True
      with i(3) at_o L(1) have "b = t" by simp
      with i(4) ta have "nb = tn\<lparr>cell_pt := ?o\<rparr>" by (simp add: hp')
      with True show ?thesis by simp
    next
      case False
      have "i \<noteq> ?L"
      proof
        assume "i = ?L"
        with i(3) at_L lf(3) have "b = a" by simp
        with ba show False by simp
      qed
      with i False other have pc: "p_c (?ps ! nat i) = Some b" by simp
      have "b \<noteq> t"
      proof
        assume "b = t"
        with pc L(2) have "cell_pt tn = i"
          using tree_inv_backref[OF inv i(1) _ _ L(2)] i(2) by (simp add: N')
        with tnL \<open>i \<noteq> ?L\<close> show False by simp
      qed
      with ba i(4) have "heap r b = Some nb" by (simp add: hp')
      with pc show ?thesis
        using tree_inv_backref[OF inv i(1)] i(2) by (simp add: N')
    qed
  qed
  show "relabelled r r' b" if ba: "b \<noteq> a" for b
  proof (cases "b = t")
    case True
    have "same_particle (?ps ! nat ?L) (particles r' ! nat ?o)"
      using at_o by simp
    then show ?thesis
      using True L(2) ta tnL oL(2) leaf by (simp add: relabelled_Some hp')
  next
    case False
    show ?thesis
    proof (rule relabelledI)
      show "heap r' b = heap r b" using ba False by (simp add: hp')
    next
      fix c assume c: "heap r b = Some c" "0 \<le> cell_pt c"
      from leaf_idx[OF c ba False] other[OF c(2)]
      show "same_particle (?ps ! nat (cell_pt c)) (particles r' ! nat (cell_pt c))"
        by simp
    qed
  qed
qed

lemma inside_nested: "inside_cell p dn \<Longrightarrow> nested dn nd \<Longrightarrow> inside_cell p nd"
  unfolding inside_cell_def nested_def by linarith

text \<open>Collapse of the branch \<open>a\<close> into a leaf that takes over the particle of its only
  child, the leaf \<open>d\<close>.\<close>

lemma tree_inv_collapse:
  assumes inv: "tree_inv r" and nd: "heap r a = Some nd" and neg: "cell_pt nd < 0"
    and dn: "heap r d = Some dn" "0 \<le> cell_pt dn" and ch: "Some d \<in> set (cell_oct nd)"
    and hp': "heap r' = (heap r)(d := None, a \<mapsto> nd\<lparr>cell_oct := replicate 8 None, cell_pt := cell_pt dn\<rparr>)"
    and ps': "particles r' = (particles r)[nat (cell_pt dn) :=
                 (particles r ! nat (cell_pt dn))\<lparr>p_c := Some a\<rparr>]"
    and N': "N r' = N r"
  shows "tree_inv r'"
    and "\<And>b. b \<noteq> a \<Longrightarrow> b \<noteq> d \<Longrightarrow> relabelled r r' b"
    and "inside_cell (particles r ! nat (cell_pt dn)) dn \<Longrightarrow> maintained r' a"
proof -
  let ?k = "cell_pt dn" and ?ps = "particles r"
  note dlf = tree_inv_leaf[OF inv dn]
  have da: "d \<noteq> a" using nd neg dn by auto
  have at_k: "particles r' ! nat ?k = (?ps ! nat ?k)\<lparr>p_c := Some a\<rparr>"
    using dlf(4) by (simp add: ps')
  have other: "particles r' ! nat i = ?ps ! nat i" if "0 \<le> i" "i \<noteq> ?k" for i
    using that dn(2) by (simp add: ps')
  have sp: "same_particle (?ps ! i) (particles r' ! i)" for i
    using dlf(4) by (cases "i = nat ?k") (simp_all add: ps')
  show "tree_inv r'"
  proof (rule tree_invI)
    show "N r' \<le> int (length (particles r'))"
      using tree_inv_N[OF inv] by (simp add: ps' N')
  next
    fix b nb assume b: "heap r' b = Some nb" "0 \<le> cell_pt nb"
    show "cell_oct nb = replicate 8 None \<and> cell_pt nb < N r' \<and>
          p_c (particles r' ! nat (cell_pt nb)) = Some b"
    proof (cases "b = a")
      case True
      with b have "nb = nd\<lparr>cell_oct := replicate 8 None, cell_pt := ?k\<rparr>" by (simp add: hp')
      then show ?thesis using dlf(2) at_k True by (simp add: N')
    next
      case False
      with b have bd: "b \<noteq> d" and hb: "heap r b = Some nb" by (auto simp: hp' split: if_splits)
      note blf = tree_inv_leaf[OF inv hb b(2)]
      have "cell_pt nb \<noteq> ?k" using blf(3) dlf(3) bd by auto
      with other[OF b(2)] blf show ?thesis by (simp add: N')
    qed
  next
    fix b nb e en
    assume b: "heap r' b = Some nb" and e: "Some e \<in> set (cell_oct nb)" "heap r' e = Some en"
    have ba: "b \<noteq> a" using b e(1) by (auto simp: hp')
    with b have hb: "heap r b = Some nb" by (auto simp: hp' split: if_splits)
    obtain en0 where en0: "heap r e = Some en0" "same_geometry en0 en"
      using e(2) nd by (cases "e = a") (auto simp: hp' split: if_splits)
    from tree_inv_nested[OF inv hb e(1) en0(1)] show "nested en nb"
      using nested_cong en0(2) same_geometry_upd(4) by blast
  next
    fix i b nb
    assume i: "0 \<le> i" "i < N r'" "p_c (particles r' ! nat i) = Some b" "heap r' b = Some nb"
    show "cell_pt nb = i"
    proof (cases "i = ?k")
      case True
      with i(3) at_k have "b = a" by simp
      with i(4) have "nb = nd\<lparr>cell_oct := replicate 8 None, cell_pt := ?k\<rparr>" by (simp add: hp')
      with True show ?thesis by simp
    next
      case False
      with i other have pc: "p_c (?ps ! nat i) = Some b" by simp
      have "b \<noteq> a"
      proof
        assume "b = a"
        with pc nd have "cell_pt nd = i"
          using tree_inv_backref[OF inv i(1) _ _ nd] i(2) by (simp add: N')
        with neg i(1) show False by simp
      qed
      with i(4) have "heap r b = Some nb" by (auto simp: hp' split: if_splits)
      with pc show ?thesis
        using tree_inv_backref[OF inv i(1)] i(2) by (simp add: N')
    qed
  qed
  show "relabelled r r' b" if "b \<noteq> a" "b \<noteq> d" for b
  proof (rule relabelledI)
    show "heap r' b = heap r b" using that by (simp add: hp')
  next
    fix c
    show "same_particle (?ps ! nat (cell_pt c)) (particles r' ! nat (cell_pt c))"
      by (rule sp)
  qed
  show "maintained r' a" if ins: "inside_cell (?ps ! nat ?k) dn"
  proof -
    have "nested dn nd" using tree_inv_nested[OF inv nd ch dn(1)] .
    with ins have "inside_cell (?ps ! nat ?k) nd" by (rule inside_nested)
    then have "inside_cell (particles r' ! nat ?k) (nd\<lparr>cell_oct := replicate 8 None, cell_pt := ?k\<rparr>)"
      using inside_cell_cong[OF sp same_geometry_upd(1)] by blast
    then show ?thesis using dn(2) by (simp add: maintained_def hp')
  qed
qed

lemma derefine_free:
  "heap r a = Some nd \<Longrightarrow> cell_pt nd = 0 \<Longrightarrow> derefine r a t = Inr (free_cell r a, None)"
  by (simp add: derefine_def)

lemma derefine_keep:
  "heap r a = Some nd \<Longrightarrow> cell_pt nd \<noteq> 0 \<Longrightarrow> cell_pt nd \<noteq> - 1 \<Longrightarrow>
   derefine r a t = Inr (r, Some a)"
  by (simp add: derefine_def)

lemma derefine_collapse:
  assumes "heap r a = Some nd" "cell_pt nd = - 1" "0 \<le> t" "t < 8"
    "cell_oct nd ! nat t = Some d" "heap r d = Some dn" "d \<noteq> a"
    "0 \<le> cell_pt dn" "nat (cell_pt dn) < length (particles r)"
  shows "\<exists>r'. derefine r a t = Inr (r', Some a) \<and>
     heap r' = (heap r)(d := None,
        a \<mapsto> nd\<lparr>cell_oct := (cell_oct nd)[nat t := None], cell_pt := cell_pt dn\<rparr>) \<and>
     particles r' = (particles r)[nat (cell_pt dn) :=
        (particles r ! nat (cell_pt dn))\<lparr>p_c := Some a\<rparr>] \<and>
     same_config r r'"
  using assms
  by (auto simp: derefine_def Let_def set_particle_c_def set_particle_def set_oct_def
      same_config_def set_cell_def free_cell_def)

lemma set_cell_set_cell [simp]: "set_cell (set_cell r a x) a y = set_cell r a y"
  by (simp add: set_cell_def)

lemma set_cell_same: "heap r a = Some nd \<Longrightarrow> set_cell r a nd = r"
  by (simp add: set_cell_def map_upd_triv)

lemma occupancy_None [simp]: "occupancy h None = 0"
  by (simp add: occupancy_def)

lemma occupancy_nonneg: "0 \<le> occupancy h q"
  by (auto simp: occupancy_def split: option.splits)

lemma occupancy_upd_other:
  "q \<noteq> Some a \<Longrightarrow> occupancy (h(a \<mapsto> x)) q = occupancy h q"
  by (auto simp: occupancy_def split: option.splits)

lemma leaf_slot_upd_other:
  "cell_oct nd ! i \<noteq> Some a \<Longrightarrow> leaf_slot (h(a \<mapsto> x)) nd i = leaf_slot h nd i"
  by (auto simp: leaf_slot_def split: option.splits)

lemma leaf_slot_pt [simp]: "leaf_slot h (nd\<lparr>cell_pt := k\<rparr>) i = leaf_slot h nd i"
  by (simp add: leaf_slot_def)

lemma recount_result:
  assumes "heap r a = Some nd"
    and "\<forall>i\<in>set os. \<forall>d. cell_oct nd ! i = Some d \<longrightarrow> d \<noteq> a \<and> heap r d \<noteq> None"
  shows "\<exists>t. recount a os r test =
           Inr (set_cell r a (nd\<lparr>cell_pt := cell_pt nd -
                   (\<Sum>i\<leftarrow>os. occupancy (heap r) (cell_oct nd ! i))\<rparr>), t) \<and>
           ((\<exists>i\<in>set os. leaf_slot (heap r) nd i) \<longrightarrow> (\<exists>i\<in>set os. t = int i \<and> leaf_slot (heap r) nd i)) \<and>
           ((\<forall>i\<in>set os. \<not> leaf_slot (heap r) nd i) \<longrightarrow> t = test)"
  using assms
proof (induction os arbitrary: r nd test)
  case Nil
  then show ?case by (simp add: set_cell_same)
next
  case (Cons i os)
  note nd = Cons.prems(1)
  have ch: "\<forall>j\<in>set os. \<forall>d. cell_oct nd ! j = Some d \<longrightarrow> d \<noteq> a \<and> heap r d \<noteq> None"
    using Cons.prems(2) by simp
  show ?case
  proof (cases "cell_oct nd ! i")
    case None
    have li: "\<not> leaf_slot (heap r) nd i" using None by (simp add: leaf_slot_def)
    from Cons.IH[OF nd ch, of test] obtain t where
      t: "recount a os r test =
            Inr (set_cell r a (nd\<lparr>cell_pt := cell_pt nd -
                   (\<Sum>j\<leftarrow>os. occupancy (heap r) (cell_oct nd ! j))\<rparr>), t)"
         "((\<exists>j\<in>set os. leaf_slot (heap r) nd j) \<longrightarrow> (\<exists>j\<in>set os. t = int j \<and> leaf_slot (heap r) nd j)) \<and>
           ((\<forall>j\<in>set os. \<not> leaf_slot (heap r) nd j) \<longrightarrow> t = test)"
      by auto
    have "recount a (i # os) r test = recount a os r test"
      using nd None by simp
    moreover have "(\<Sum>j\<leftarrow>i # os. occupancy (heap r) (cell_oct nd ! j)) =
         (\<Sum>j\<leftarrow>os. occupancy (heap r) (cell_oct nd ! j))"
      using None by simp
    ultimately have eq: "recount a (i # os) r test =
        Inr (set_cell r a (nd\<lparr>cell_pt := cell_pt nd -
               (\<Sum>j\<leftarrow>i # os. occupancy (heap r) (cell_oct nd ! j))\<rparr>), t)"
      using t(1) by (simp only:)
    have "((\<exists>j\<in>set (i # os). leaf_slot (heap r) nd j) \<longrightarrow> (\<exists>j\<in>set (i # os). t = int j \<and> leaf_slot (heap r) nd j)) \<and>
           ((\<forall>j\<in>set (i # os). \<not> leaf_slot (heap r) nd j) \<longrightarrow> t = test)"
      using t(2) li by auto
    with eq show ?thesis by blast
  next
    case (Some d)
    with Cons.prems(2) obtain dn where dn: "heap r d = Some dn" and da: "d \<noteq> a" by auto
    define k where "k = (if 0 \<le> cell_pt dn then cell_pt nd - 1 else cell_pt nd + cell_pt dn)"
    define test1 where "test1 = (if 0 \<le> cell_pt dn then int i else test)"
    define r1 where "r1 = set_cell r a (nd\<lparr>cell_pt := k\<rparr>)"
    have step: "recount a (i # os) r test = recount a os r1 test1"
      using nd Some dn by (simp add: k_def test1_def r1_def)
    have nd1: "heap r1 a = Some (nd\<lparr>cell_pt := k\<rparr>)" by (simp add: r1_def)
    have ch1: "\<forall>j\<in>set os. \<forall>d. cell_oct (nd\<lparr>cell_pt := k\<rparr>) ! j = Some d \<longrightarrow>
                 d \<noteq> a \<and> heap r1 d \<noteq> None"
      using ch by (simp add: r1_def)
    have occ1: "occupancy (heap r1) (cell_oct nd ! j) = occupancy (heap r) (cell_oct nd ! j)"
      if "j \<in> set os" for j
      using ch that by (auto simp: r1_def intro!: occupancy_upd_other)
    have lf1: "leaf_slot (heap r1) nd j = leaf_slot (heap r) nd j" if "j \<in> set os" for j
      using ch that by (auto simp: r1_def intro!: leaf_slot_upd_other)
    have occ_i: "occupancy (heap r) (cell_oct nd ! i) = cell_pt nd - k"
      using Some dn by (simp add: occupancy_def k_def)
    have lf_i: "leaf_slot (heap r) nd i \<longleftrightarrow> 0 \<le> cell_pt dn"
      using Some dn by (simp add: leaf_slot_def)
    from Cons.IH[OF nd1 ch1, of test1] obtain t where
      t: "recount a os r1 test1 =
            Inr (set_cell r1 a (nd\<lparr>cell_pt := k -
                   (\<Sum>j\<leftarrow>os. occupancy (heap r1) (cell_oct nd ! j))\<rparr>), t)"
         "((\<exists>j\<in>set os. leaf_slot (heap r1) nd j) \<longrightarrow> (\<exists>j\<in>set os. t = int j \<and> leaf_slot (heap r1) nd j)) \<and>
           ((\<forall>j\<in>set os. \<not> leaf_slot (heap r1) nd j) \<longrightarrow> t = test1)"
      by auto
    have sum1: "(\<Sum>j\<leftarrow>os. occupancy (heap r1) (cell_oct nd ! j)) =
                (\<Sum>j\<leftarrow>os. occupancy (heap r) (cell_oct nd ! j))"
      using occ1 by (simp cong: map_cong)
    have st: "set_cell r1 a (nd\<lparr>cell_pt := k - (\<Sum>j\<leftarrow>os. occupancy (heap r1) (cell_oct nd ! j))\<rparr>) =
      set_cell r a (nd\<lparr>cell_pt := cell_pt nd -
         (\<Sum>j\<leftarrow>i # os. occupancy (heap r) (cell_oct nd ! j))\<rparr>)"
    proof -
      have A: "k - (\<Sum>j\<leftarrow>os. occupancy (heap r1) (cell_oct nd ! j)) =
            cell_pt nd - (\<Sum>j\<leftarrow>i # os. occupancy (heap r) (cell_oct nd ! j))"
        using occ_i sum1 by simp
      have B: "set_cell r1 a X = set_cell r a X" for X
        by (simp add: r1_def)
      show ?thesis by (simp only: A B)
    qed
    have t2: "((\<exists>j\<in>set os. leaf_slot (heap r) nd j) \<longrightarrow> (\<exists>j\<in>set os. t = int j \<and> leaf_slot (heap r) nd j)) \<and>
           ((\<forall>j\<in>set os. \<not> leaf_slot (heap r) nd j) \<longrightarrow> t = test1)"
      using t(2) lf1 by (simp cong: bex_cong)
    have eq: "recount a (i # os) r test =
        Inr (set_cell r a (nd\<lparr>cell_pt := cell_pt nd -
               (\<Sum>j\<leftarrow>i # os. occupancy (heap r) (cell_oct nd ! j))\<rparr>), t)"
      using step t(1) st by (simp only:)
    have "((\<exists>j\<in>set (i # os). leaf_slot (heap r) nd j) \<longrightarrow> (\<exists>j\<in>set (i # os). t = int j \<and> leaf_slot (heap r) nd j)) \<and>
           ((\<forall>j\<in>set (i # os). \<not> leaf_slot (heap r) nd j) \<longrightarrow> t = test)"
      using t2 lf_i by (auto simp: test1_def)
    with eq show ?thesis by blast
  qed
qed

lemma sum_list_eq_1:
  fixes xs :: "int list"
  assumes "\<forall>x\<in>set xs. 0 \<le> x" "sum_list xs = 1"
  shows "\<exists>i<length xs. xs ! i = 1 \<and> (\<forall>j<length xs. j \<noteq> i \<longrightarrow> xs ! j = 0)"
  using assms
proof (induction xs)
  case Nil
  then show ?case by simp
next
  case (Cons x xs)
  have nn: "0 \<le> sum_list xs" using Cons.prems(1) by (simp add: sum_list_nonneg)
  from Cons.prems nn consider "x = 1" "sum_list xs = 0" | "x = 0" "sum_list xs = 1"
    by (cases "x = 0") auto
  then show ?case
  proof cases
    case 1
    then have "\<forall>y\<in>set xs. y = 0"
      using Cons.prems(1) by (simp add: sum_list_nonneg_eq_0_iff)
    then have "\<forall>j<length xs. xs ! j = 0" by simp
    with 1 have "(x # xs) ! 0 = 1 \<and> (\<forall>j<length (x # xs). j \<noteq> 0 \<longrightarrow> (x # xs) ! j = 0)"
      by (auto simp: nth_Cons split: nat.splits)
    then show ?thesis by blast
  next
    case 2
    with Cons.IH Cons.prems(1) obtain i where
      i: "i < length xs" "xs ! i = 1" "\<forall>j<length xs. j \<noteq> i \<longrightarrow> xs ! j = 0"
      by auto
    with 2 have "(x # xs) ! Suc i = 1 \<and>
        (\<forall>j<length (x # xs). j \<noteq> Suc i \<longrightarrow> (x # xs) ! j = 0)"
      by (auto simp: nth_Cons split: nat.splits)
    moreover have "Suc i < length (x # xs)" using i(1) by simp
    ultimately show ?thesis by blast
  qed
qed

lemma same_config_refl [simp]: "same_config r r"
  by (simp add: same_config_def)

lemma same_config_trans:
  assumes "same_config r r1" "same_config r1 r2"
  shows "same_config r r2"
proof -
  from assms have 1: "r1\<lparr>heap := heap r, particles := particles r\<rparr> = r"
    and 2: "r2\<lparr>heap := heap r1, particles := particles r1\<rparr> = r1"
    and len: "length (particles r2) = length (particles r)"
    by (simp_all add: same_config_def)
  have "r2\<lparr>heap := heap r1, particles := particles r1\<rparr>\<lparr>heap := heap r, particles := particles r\<rparr> = r"
    using 1 2 by simp
  then have "r2\<lparr>heap := heap r, particles := particles r\<rparr> = r" by simp
  with len show ?thesis by (simp add: same_config_def)
qed

lemma same_config_set_cell [simp]: "same_config r (set_cell r a x)"
  by (simp add: same_config_def set_cell_def)

lemma same_config_free_cell [simp]: "same_config r (free_cell r a)"
  by (simp add: same_config_def free_cell_def)

lemma same_config_fields:
  assumes "same_config r r'"
  shows "N r' = N r" "N_tree_fixed r' = N_tree_fixed r" "tree_root r' = tree_root r"
    "length (particles r') = length (particles r)" "brk r' = brk r" "root_n r' = root_n r"
proof -
  from assms have e: "r'\<lparr>heap := heap r, particles := particles r\<rparr> = r"
    and l: "length (particles r') = length (particles r)"
    by (simp_all add: same_config_def)
  show "N r' = N r" "N_tree_fixed r' = N_tree_fixed r" "tree_root r' = tree_root r"
    "brk r' = brk r" "root_n r' = root_n r"
    using arg_cong[OF e, of N] arg_cong[OF e, of N_tree_fixed] arg_cong[OF e, of tree_root]
      arg_cong[OF e, of brk] arg_cong[OF e, of root_n]
    by simp_all
  show "length (particles r') = length (particles r)" by (rule l)
qed

lemma relabelled_set_cell_other: "b \<noteq> a \<Longrightarrow> relabelled r (set_cell r a x) b"
  by (rule relabelledI) simp_all

lemma relabelled_free_cell_other: "b \<noteq> a \<Longrightarrow> relabelled r (free_cell r a) b"
  by (rule relabelledI) simp_all

lemma relabelled_branch:
  assumes "relabelled r r' a" "heap r a = Some nd" "cell_pt nd < 0"
  shows "heap r' a = Some nd"
proof -
  from assms obtain c' where c': "heap r' a = Some c'" "c'\<lparr>cell_pt := cell_pt nd\<rparr> = nd"
    "cell_pt c' = cell_pt nd"
    by (auto simp: relabelled_Some)
  have "c'\<lparr>cell_pt := cell_pt c'\<rparr> = nd" using c'(2,3) by simp
  then have "c' = nd" by simp
  with c'(1) show ?thesis by simp
qed

lemma update_children_post:
  assumes contract: "update_contract n upd"
  shows "update_children upd a os r = Inr r' \<Longrightarrow> distinct os \<Longrightarrow> set os \<subseteq> {..<8} \<Longrightarrow>
     tree_inv r \<Longrightarrow> heap r a = Some nd \<Longrightarrow> cell_pt nd < 0 \<Longrightarrow> length (cell_oct nd) = 8 \<Longrightarrow>
     \<forall>i<8. wf_tree n (heap r) (cell_oct nd ! i) \<and>
            nodes n (heap r) (cell_oct nd ! i) \<subseteq> C i \<Longrightarrow>
     \<forall>i<8. a \<notin> C i \<Longrightarrow>
     \<forall>i<8. \<forall>j<8. i \<noteq> j \<longrightarrow> C i \<inter> C j = {} \<Longrightarrow>
     \<forall>i<8. i \<notin> set os \<longrightarrow> (\<forall>b\<in>nodes n (heap r) (cell_oct nd ! i). maintained r b) \<Longrightarrow>
     \<exists>oct'. heap r' a = Some (nd\<lparr>cell_oct := oct'\<rparr>) \<and> length oct' = 8 \<and>
        (\<forall>i<8. (oct' ! i = None \<or> oct' ! i = cell_oct nd ! i) \<and>
               wf_tree n (heap r') (oct' ! i) \<and>
               nodes n (heap r') (oct' ! i) \<subseteq> C i \<and>
               (\<forall>b\<in>nodes n (heap r') (oct' ! i). maintained r' b)) \<and>
        tree_inv r' \<and>
        (\<forall>b. b \<noteq> a \<longrightarrow> b \<notin> (\<Union>i<8. C i) \<longrightarrow> relabelled r r' b) \<and>
        same_config r r'"
proof (induction os arbitrary: r nd)
  case Nil
  have "heap r' a = Some (nd\<lparr>cell_oct := cell_oct nd\<rparr>)"
    using Nil.prems(1,5) by simp
  moreover have "\<forall>i<8. (cell_oct nd ! i = None \<or> cell_oct nd ! i = cell_oct nd ! i) \<and>
               wf_tree n (heap r') (cell_oct nd ! i) \<and>
               nodes n (heap r') (cell_oct nd ! i) \<subseteq> C i \<and>
               (\<forall>b\<in>nodes n (heap r') (cell_oct nd ! i). maintained r' b)"
    using Nil.prems(1,8,11) by simp
  moreover have "tree_inv r'" "same_config r r'" "\<forall>b. relabelled r r' b"
    using Nil.prems(1,4) by simp_all
  ultimately show ?case using Nil.prems(7) by blast
next
  case (Cons i os)
  note inv = Cons.prems(4) and nd = Cons.prems(5) and neg = Cons.prems(6)
    and len = Cons.prems(7)
  have sub: "wf_tree n (heap r) (cell_oct nd ! j) \<and> nodes n (heap r) (cell_oct nd ! j) \<subseteq> C j"
    if "j < 8" for j using Cons.prems(8) that by blast
  have aC: "a \<notin> C j" if "j < 8" for j using Cons.prems(9) that by blast
  have disj: "C j \<inter> C k = {}" if "j < 8" "k < 8" "j \<noteq> k" for j k
    using Cons.prems(10) that by blast
  have mt: "maintained r b" if "j < 8" "j \<notin> set (i # os)" "b \<in> nodes n (heap r) (cell_oct nd ! j)"
    for j b using Cons.prems(11) that by blast
  have i8: "i < 8" and i_os: "i \<notin> set os" and dist: "distinct os" and os8: "set os \<subseteq> {..<8}"
    using Cons.prems(2,3) by auto
  let ?p = "cell_oct nd ! i"
  from Cons.prems(1) nd obtain r1 q r2 where
    call: "upd r ?p = Inr (r1, q)" and st: "set_oct r1 a i q = Inr r2"
    and rest: "update_children upd a os r2 = Inr r'"
    by auto
  have post: "update_post n r ?p r1 q"
    using contract inv sub[OF i8] call unfolding update_contract_def by blast
  then have q: "q = None \<or> q = ?p" and wfq: "wf_tree n (heap r1) q"
    and nq: "nodes n (heap r1) q \<subseteq> nodes n (heap r) ?p" and inv1: "tree_inv r1"
    and mq: "\<And>b. b \<in> nodes n (heap r1) q \<Longrightarrow> maintained r1 b"
    and fr: "\<And>b. b \<notin> nodes n (heap r) ?p \<Longrightarrow> relabelled r r1 b"
    and sc1: "same_config r r1"
    unfolding update_post_def by blast+
  have pC: "nodes n (heap r) ?p \<subseteq> C i" using sub[OF i8] by simp
  have a1: "heap r1 a = Some nd"
  proof -
    have "a \<notin> nodes n (heap r) ?p" using pC aC[OF i8] by blast
    from relabelled_branch[OF fr[OF this] nd neg] show ?thesis .
  qed
  define nd2 where "nd2 = nd\<lparr>cell_oct := (cell_oct nd)[i := q]\<rparr>"
  have r2: "r2 = set_cell r1 a nd2"
    using st a1 by (simp add: set_oct_Inr nd2_def)
  have a2: "heap r2 a = Some nd2" by (simp add: r2)
  have fr12: "relabelled r1 r2 b" if "b \<noteq> a" for b
    unfolding r2 using that by (rule relabelled_set_cell_other)
  have fr2: "relabelled r r2 b" if "b \<noteq> a" "b \<notin> C i" for b
  proof -
    have "b \<notin> nodes n (heap r) ?p" using that(2) pC by blast
    from relabelled_trans[OF fr[OF this] fr12[OF that(1)]] show ?thesis .
  qed
  have inv2: "tree_inv r2"
  proof -
    have "set ((cell_oct nd)[i := q]) \<subseteq> insert None (set (cell_oct nd))"
    proof -
      have "set ((cell_oct nd)[i := q]) \<subseteq> insert q (set (cell_oct nd))"
        by (rule set_update_subset_insert)
      moreover have "q \<in> insert None (set (cell_oct nd))"
        using q i8 len by auto
      ultimately show ?thesis by auto
    qed
    from tree_inv_branch_update[OF inv1 a1 neg neg this]
    show ?thesis unfolding r2 nd2_def by simp
  qed
  have slot2: "cell_oct nd2 ! j = (if j = i then q else cell_oct nd ! j)" if "j < 8" for j
    using that len by (simp add: nd2_def nth_list_update)
  have len2: "length (cell_oct nd2) = 8" "cell_pt nd2 < 0"
    using len neg by (simp_all add: nd2_def)
  txt \<open>the slot just maintained\<close>
  have qi: "wf_tree n (heap r2) q" "nodes n (heap r2) q = nodes n (heap r1) q"
    "\<And>b. b \<in> nodes n (heap r1) q \<Longrightarrow> maintained r2 b"
  proof -
    have rel: "relabelled r1 r2 b" if "b \<in> nodes n (heap r1) q" for b
    proof -
      have "b \<in> C i" using that nq pC by blast
      with aC[OF i8] have "b \<noteq> a" by blast
      then show ?thesis by (rule fr12)
    qed
    from subtree_transfer[of n r1 q r2, OF rel wfq]
    show "wf_tree n (heap r2) q" "nodes n (heap r2) q = nodes n (heap r1) q"
      "\<And>b. b \<in> nodes n (heap r1) q \<Longrightarrow> maintained r2 b"
      using mq by blast+
  qed
  txt \<open>the other slots\<close>
  have oj: "wf_tree n (heap r2) (cell_oct nd ! j)"
    "nodes n (heap r2) (cell_oct nd ! j) = nodes n (heap r) (cell_oct nd ! j)"
    "\<And>b. b \<in> nodes n (heap r) (cell_oct nd ! j) \<Longrightarrow> maintained r b \<Longrightarrow> maintained r2 b"
    if j: "j < 8" "j \<noteq> i" for j
  proof -
    have rel: "relabelled r r2 b" if "b \<in> nodes n (heap r) (cell_oct nd ! j)" for b
    proof -
      have bj: "b \<in> C j" using that sub[OF j(1)] by blast
      with aC[OF j(1)] have "b \<noteq> a" by blast
      moreover have "b \<notin> C i" using bj disj[OF j(1) i8 j(2)] by blast
      ultimately show ?thesis by (rule fr2)
    qed
    from subtree_transfer[of n r "cell_oct nd ! j" r2, OF rel] sub[OF j(1)]
    show "wf_tree n (heap r2) (cell_oct nd ! j)"
      "nodes n (heap r2) (cell_oct nd ! j) = nodes n (heap r) (cell_oct nd ! j)"
      "\<And>b. b \<in> nodes n (heap r) (cell_oct nd ! j) \<Longrightarrow> maintained r b \<Longrightarrow> maintained r2 b"
      by blast+
  qed
  have sub2: "wf_tree n (heap r2) (cell_oct nd2 ! j) \<and> nodes n (heap r2) (cell_oct nd2 ! j) \<subseteq> C j"
    if "j < 8" for j
  proof (cases "j = i")
    case True
    then show ?thesis using qi(1,2) nq pC slot2[OF that] by auto
  next
    case False
    then show ?thesis using oj(1,2)[OF that False] sub[OF that] slot2[OF that] by auto
  qed
  have mt2: "maintained r2 b"
    if "j < 8" "j \<notin> set os" "b \<in> nodes n (heap r2) (cell_oct nd2 ! j)" for j b
  proof (cases "j = i")
    case True
    then show ?thesis using qi(2,3) that(3) slot2[OF that(1)] by auto
  next
    case False
    have "b \<in> nodes n (heap r) (cell_oct nd ! j)"
      using that(3) slot2[OF that(1)] False oj(2)[OF that(1) False] by simp
    moreover from this have "maintained r b"
      using mt[OF that(1)] that(2) False by simp
    ultimately show ?thesis using oj(3)[OF that(1) False] by blast
  qed
  have sub2': "\<forall>j<8. wf_tree n (heap r2) (cell_oct nd2 ! j) \<and>
                 nodes n (heap r2) (cell_oct nd2 ! j) \<subseteq> C j"
    using sub2 by blast
  have mt2': "\<forall>j<8. j \<notin> set os \<longrightarrow> (\<forall>b\<in>nodes n (heap r2) (cell_oct nd2 ! j). maintained r2 b)"
    using mt2 by blast
  from Cons.IH[OF rest dist os8 inv2 a2 len2(2,1) sub2' Cons.prems(9,10) mt2']
  obtain oct' where
    a': "heap r' a = Some (nd2\<lparr>cell_oct := oct'\<rparr>)" and len': "length oct' = 8"
    and slots: "\<forall>j<8. (oct' ! j = None \<or> oct' ! j = cell_oct nd2 ! j) \<and>
               wf_tree n (heap r') (oct' ! j) \<and>
               nodes n (heap r') (oct' ! j) \<subseteq> C j \<and>
               (\<forall>b\<in>nodes n (heap r') (oct' ! j). maintained r' b)"
    and inv': "tree_inv r'"
    and fr': "\<forall>b. b \<noteq> a \<longrightarrow> b \<notin> (\<Union>j<8. C j) \<longrightarrow> relabelled r2 r' b"
    and sc': "same_config r2 r'"
    by blast
  have 1: "heap r' a = Some (nd\<lparr>cell_oct := oct'\<rparr>)"
    using a' by (simp add: nd2_def)
  have 2: "\<forall>j<8. (oct' ! j = None \<or> oct' ! j = cell_oct nd ! j) \<and>
               wf_tree n (heap r') (oct' ! j) \<and>
               nodes n (heap r') (oct' ! j) \<subseteq> C j \<and>
               (\<forall>b\<in>nodes n (heap r') (oct' ! j). maintained r' b)"
  proof (intro allI impI)
    fix j :: nat assume j: "j < 8"
    have "oct' ! j = None \<or> oct' ! j = cell_oct nd ! j"
      using slots j slot2[OF j] q by (cases "j = i") auto
    with slots j show "(oct' ! j = None \<or> oct' ! j = cell_oct nd ! j) \<and>
               wf_tree n (heap r') (oct' ! j) \<and>
               nodes n (heap r') (oct' ! j) \<subseteq> C j \<and>
               (\<forall>b\<in>nodes n (heap r') (oct' ! j). maintained r' b)"
      by blast
  qed
  have 3: "\<forall>b. b \<noteq> a \<longrightarrow> b \<notin> (\<Union>j<8. C j) \<longrightarrow> relabelled r r' b"
  proof (intro allI impI)
    fix b assume b: "b \<noteq> a" "b \<notin> (\<Union>j<8. C j)"
    then have "b \<notin> C i" using i8 by blast
    from relabelled_trans[OF fr2[OF b(1) this]] fr' b show "relabelled r r' b" by blast
  qed
  have 4: "same_config r r'"
    using same_config_trans[OF same_config_trans[OF sc1, of r2] sc'] by (simp add: r2)
  from 1 len' 2 inv' 3 4 show ?case by blast
qed

lemma update_leaf_post:
  assumes inv: "tree_inv r" and nd: "heap r a = Some nd" and leaf: "0 \<le> cell_pt nd"
    and upd: "update_leaf r a = Inr (r', q)"
  shows "(q = Some a \<and> r' = r \<and> maintained r a \<or>
          q = None \<and> heap r' a = None \<and> \<not> inside_cell (particles r ! nat (cell_pt nd)) nd) \<and>
         tree_inv r' \<and> (\<forall>b. b \<noteq> a \<longrightarrow> relabelled r r' b) \<and> same_config r r'"
proof -
  let ?o = "cell_pt nd" and ?ps = "particles r"
  note lf = tree_inv_leaf[OF inv nd leaf]
  show ?thesis
  proof (cases "inside_cell (?ps ! nat ?o) nd")
    case True
    have "r\<lparr>particles := ?ps[nat ?o := (?ps ! nat ?o)\<lparr>p_c := Some a\<rparr>]\<rparr> = r"
      using lf(3) by simp
    with update_leaf_inside[OF nd leaf lf(4) True] upd have "r' = r" "q = Some a" by simp_all
    moreover have "maintained r a" using True nd leaf by (simp add: maintained_def)
    ultimately show ?thesis using inv by simp
  next
    case False
    have free: ?thesis if r': "r' = free_cell r a" and q: "q = None"
    proof -
      have "tree_inv r'" unfolding r' using inv by (rule tree_inv_free)
      moreover have "\<forall>b. b \<noteq> a \<longrightarrow> relabelled r r' b"
        unfolding r' using relabelled_free_cell_other by blast
      ultimately show ?thesis using False q by (simp add: r')
    qed
    show ?thesis
    proof (cases "?o < N_tree_fixed r")
      case True
      from update_leaf_fixed[OF nd leaf lf(4) False True] upd
      have "r' = free_cell r a" "q = None" by (simp_all add: free_cell_def)
      then show ?thesis by (rule free)
    next
      case nf: False
      note eq = update_leaf_swap[OF nd leaf lf(4) False nf]
      have L: "0 \<le> N r - 1" "nat (N r - 1) < length ?ps"
        using lf(2) leaf tree_inv_N[OF inv] by auto
      obtain t where t1: "p_c (?ps ! nat (N r - 1)) = Some t"
        using eq upd L by (cases "p_c (?ps ! nat (N r - 1))") simp_all
      obtain tn where t2: "heap r t = Some tn"
        using eq upd L t1 by (cases "heap r t") simp_all
      note t = t1 t2
      have "update_leaf r a = Inr (r\<lparr>particles := ?ps[nat ?o := ?ps ! nat (N r - 1), nat (N r - 1) := ?ps ! nat ?o],
                        heap := (heap r)(t \<mapsto> tn\<lparr>cell_pt := ?o\<rparr>, a := None)\<rparr>, None :: addr option)"
        using L t by (simp only: eq if_True simp_thms option.case)
      from trans[OF upd[symmetric] this] have r': "r' = r\<lparr>particles := ?ps[nat ?o := ?ps ! nat (N r - 1), nat (N r - 1) := ?ps ! nat ?o],
                        heap := (heap r)(t \<mapsto> tn\<lparr>cell_pt := ?o\<rparr>, a := None)\<rparr>"
        and q: "q = None"
        by (simp_all only: sum.inject prod.inject)
      show ?thesis
      proof (cases "?o = N r - 1")
        case True
        with t lf(3) have "t = a" by simp
        with True have "r' = free_cell r a"
          unfolding r' by (simp add: free_cell_def)
        then show ?thesis using q by (rule free)
      next
        case ne: False
        from tree_inv_swap[OF inv nd leaf t ne]
        have "tree_inv r'" "\<And>b. b \<noteq> a \<Longrightarrow> relabelled r r' b"
          unfolding r' by blast+
        moreover have "same_config r r'" "heap r' a = None"
          by (simp_all add: r' same_config_def)
        ultimately show ?thesis using q False by blast
      qed
    qed
  qed
qed

lemma wf_tree_live: "wf_tree n h (Some d) \<Longrightarrow> \<exists>dn. h d = Some dn"
  by (cases n; cases "h d") (simp_all add: wf_tree_Suc)

lemma sum_list_oct:
  "(\<Sum>i\<leftarrow>[0..<length xs]. f (xs ! i)) = sum_list (map f xs)"
proof -
  have "map (\<lambda>i. f (xs ! i)) [0..<length xs] = map f (map ((!) xs) [0..<length xs])"
    by simp
  also have "\<dots> = map f xs" by (simp only: map_nth)
  finally show ?thesis by simp
qed

text \<open>The children of a branch after the first loop: each slot holds a maintained
  subtree inside its own region \<open>C i\<close>.\<close>

lemma child_facts:
  assumes slots: "\<forall>i<8. wf_tree n (heap r1) (cell_oct nd1 ! i) \<and>
             nodes n (heap r1) (cell_oct nd1 ! i) \<subseteq> C i \<and>
             (\<forall>b\<in>nodes n (heap r1) (cell_oct nd1 ! i). maintained r1 b)"
    and aC: "\<forall>i<8. a \<notin> C i"
    and i: "i < 8" and d: "cell_oct nd1 ! i = Some d"
  shows "d \<noteq> a" "d \<in> C i" "maintained r1 d" "\<exists>dn. heap r1 d = Some dn"
    "1 \<le> occupancy (heap r1) (Some d)"
    "occupancy (heap r1) (Some d) = 1 \<longleftrightarrow> leaf_slot (heap r1) nd1 i"
proof -
  have dn: "d \<in> nodes n (heap r1) (cell_oct nd1 ! i)" by (simp add: d)
  with slots i show dC: "d \<in> C i" and m: "maintained r1 d" by blast+
  from dC aC i show "d \<noteq> a" by blast
  from slots i d have "wf_tree n (heap r1) (Some d)" by auto
  then show "\<exists>dn. heap r1 d = Some dn" by (rule wf_tree_live)
  then obtain dn where dn: "heap r1 d = Some dn" by blast
  from m dn show "1 \<le> occupancy (heap r1) (Some d)"
    by (auto simp: maintained_def occupancy_def split: if_splits)
  from m dn d show "occupancy (heap r1) (Some d) = 1 \<longleftrightarrow> leaf_slot (heap r1) nd1 i"
    by (auto simp: maintained_def occupancy_def leaf_slot_def split: if_splits)
qed

lemma branch_recount:
  assumes a1: "heap r1 a = Some nd1" and len: "length (cell_oct nd1) = 8"
    and slots: "\<forall>i<8. wf_tree n (heap r1) (cell_oct nd1 ! i) \<and>
             nodes n (heap r1) (cell_oct nd1 ! i) \<subseteq> C i \<and>
             (\<forall>b\<in>nodes n (heap r1) (cell_oct nd1 ! i). maintained r1 b)"
    and aC: "\<forall>i<8. a \<notin> C i"
    and rc: "recount a [0..<8] (set_cell r1 a (nd1\<lparr>cell_pt := 0\<rparr>)) (- 1) = Inr (r2, test)"
  defines "K \<equiv> sum_list (map (occupancy (heap r1)) (cell_oct nd1))"
  shows "r2 = set_cell r1 a (nd1\<lparr>cell_pt := - K\<rparr>)" "0 \<le> K"
    "K = 0 \<Longrightarrow> \<forall>i<8. cell_oct nd1 ! i = None"
    "K = 1 \<Longrightarrow> 0 \<le> test \<and> test < 8 \<and> leaf_slot (heap r1) nd1 (nat test) \<and>
                (\<forall>j<8. j \<noteq> nat test \<longrightarrow> cell_oct nd1 ! j = None)"
proof -
  define nz where "nz = nd1\<lparr>cell_pt := 0\<rparr>"
  define rz where "rz = set_cell r1 a nz"
  note cf = child_facts[OF slots aC]
  have hz: "heap rz a = Some nz" by (simp add: rz_def)
  have chz: "\<forall>i\<in>set [0..<8]. \<forall>d. cell_oct nz ! i = Some d \<longrightarrow> d \<noteq> a \<and> heap rz d \<noteq> None"
  proof (intro ballI allI impI)
    fix i d assume "i \<in> set [0..<8]" "cell_oct nz ! i = Some d"
    then have i: "i < 8" and d: "cell_oct nd1 ! i = Some d" by (simp_all add: nz_def)
    from cf(1,4)[OF i d] show "d \<noteq> a \<and> heap rz d \<noteq> None" by (auto simp: rz_def)
  qed
  have occz: "occupancy (heap rz) (cell_oct nz ! i) = occupancy (heap r1) (cell_oct nd1 ! i)"
    if "i < 8" for i
  proof -
    have "cell_oct nd1 ! i \<noteq> Some a" using cf(1)[OF that] by auto
    then show ?thesis by (simp add: rz_def nz_def occupancy_upd_other)
  qed
  have lfz: "leaf_slot (heap rz) nz i = leaf_slot (heap r1) nd1 i" if "i < 8" for i
  proof -
    have "cell_oct nd1 ! i \<noteq> Some a" using cf(1)[OF that] by auto
    then show ?thesis by (simp add: rz_def nz_def leaf_slot_upd_other)
  qed
  have sumz: "(\<Sum>i\<leftarrow>[0..<8]. occupancy (heap rz) (cell_oct nz ! i)) = K"
  proof -
    have "(\<Sum>i\<leftarrow>[0..<8]. occupancy (heap rz) (cell_oct nz ! i)) =
          (\<Sum>i\<leftarrow>[0..<8]. occupancy (heap r1) (cell_oct nd1 ! i))"
      by (rule arg_cong[where f = sum_list], rule map_cong) (simp_all add: occz)
    also have "\<dots> = K"
      unfolding K_def using sum_list_oct[of "occupancy (heap r1)" "cell_oct nd1"] len by simp
    finally show ?thesis .
  qed
  from recount_result[OF hz chz, of "- 1"] obtain t where
    t: "recount a [0..<8] rz (- 1) =
          Inr (set_cell rz a (nz\<lparr>cell_pt := cell_pt nz -
                 (\<Sum>i\<leftarrow>[0..<8]. occupancy (heap rz) (cell_oct nz ! i))\<rparr>), t)"
       "(\<exists>i\<in>set [0..<8]. leaf_slot (heap rz) nz i) \<longrightarrow>
          (\<exists>i\<in>set [0..<8]. t = int i \<and> leaf_slot (heap rz) nz i)"
    by blast
  have st: "set_cell rz a (nz\<lparr>cell_pt := cell_pt nz -
                 (\<Sum>i\<leftarrow>[0..<8]. occupancy (heap rz) (cell_oct nz ! i))\<rparr>) =
        set_cell r1 a (nd1\<lparr>cell_pt := - K\<rparr>)"
    unfolding sumz by (simp add: rz_def nz_def)
  have rc': "recount a [0..<8] rz (- 1) = Inr (r2, test)"
    using rc by (simp only: rz_def nz_def)
  have "(Inr (r2, test) :: error + Rebound \<times> int) =
        Inr (set_cell r1 a (nd1\<lparr>cell_pt := - K\<rparr>), t)"
    using trans[OF rc'[symmetric] t(1)] unfolding st .
  then have r2: "r2 = set_cell r1 a (nd1\<lparr>cell_pt := - K\<rparr>)" and tt: "test = t"
    by simp_all
  show "r2 = set_cell r1 a (nd1\<lparr>cell_pt := - K\<rparr>)" by (rule r2)
  have t2: "\<exists>i<8. t = int i \<and> leaf_slot (heap r1) nd1 i" if "i0 < 8" "leaf_slot (heap r1) nd1 i0" for i0
  proof -
    have "\<exists>i\<in>set [0..<8]. leaf_slot (heap rz) nz i"
      using that lfz by auto
    with t(2) obtain i where "i \<in> set [0..<8]" "t = int i" "leaf_slot (heap rz) nz i" by blast
    then show ?thesis using lfz by auto
  qed
  have nn: "\<forall>x\<in>set (map (occupancy (heap r1)) (cell_oct nd1)). 0 \<le> x"
    by (auto simp: occupancy_nonneg)
  show "0 \<le> K" unfolding K_def by (rule sum_list_nonneg) (use nn in auto)
  have zero: "cell_oct nd1 ! i = None" if "i < 8" "occupancy (heap r1) (cell_oct nd1 ! i) = 0" for i
  proof (cases "cell_oct nd1 ! i")
    case None
    then show ?thesis .
  next
    case (Some d)
    with cf(5)[OF that(1) Some] that(2) show ?thesis by simp
  qed
  show "\<forall>i<8. cell_oct nd1 ! i = None" if "K = 0"
  proof (intro allI impI)
    fix i :: nat assume i: "i < 8"
    have "sum_list (map (occupancy (heap r1)) (cell_oct nd1)) = 0 \<longleftrightarrow>
          (\<forall>x\<in>set (map (occupancy (heap r1)) (cell_oct nd1)). x = 0)"
      by (rule sum_list_nonneg_eq_0_iff) (use nn in blast)
    then have "\<forall>x\<in>set (map (occupancy (heap r1)) (cell_oct nd1)). x = 0"
      using that unfolding K_def by blast
    then have "occupancy (heap r1) (cell_oct nd1 ! i) = 0" using i len by simp
    with i show "cell_oct nd1 ! i = None" by (rule zero)
  qed
  show "0 \<le> test \<and> test < 8 \<and> leaf_slot (heap r1) nd1 (nat test) \<and>
        (\<forall>j<8. j \<noteq> nat test \<longrightarrow> cell_oct nd1 ! j = None)" if "K = 1"
  proof -
    from sum_list_eq_1[OF nn] that obtain i0 where
      i0: "i0 < 8" "occupancy (heap r1) (cell_oct nd1 ! i0) = 1"
        "\<forall>j<8. j \<noteq> i0 \<longrightarrow> occupancy (heap r1) (cell_oct nd1 ! j) = 0"
      unfolding K_def using len by auto
    have others: "cell_oct nd1 ! j = None" if "j < 8" "j \<noteq> i0" for j
      using zero[OF that(1)] i0(3) that by blast
    obtain d where d: "cell_oct nd1 ! i0 = Some d"
      using i0(2) by (cases "cell_oct nd1 ! i0") simp_all
    have l0: "leaf_slot (heap r1) nd1 i0"
      using cf(6)[OF i0(1) d] i0(2) d by simp
    from t2[OF i0(1) l0] obtain i where i: "i < 8" "t = int i" "leaf_slot (heap r1) nd1 i"
      by blast
    have "i = i0"
    proof (rule ccontr)
      assume "i \<noteq> i0"
      with others i(1) have "cell_oct nd1 ! i = None" by blast
      with i(3) show False by (simp add: leaf_slot_def)
    qed
    with i l0 others tt show ?thesis by simp
  qed
qed

lemma free_cell_set_cell [simp]: "free_cell (set_cell r a x) a = free_cell r a"
  by (simp add: free_cell_def set_cell_def)

lemma all_None_replicate:
  "length xs = 8 \<Longrightarrow> \<forall>j<8. j \<noteq> i \<longrightarrow> xs ! j = None \<Longrightarrow> xs[i := None] = replicate 8 None"
  by (cases "i < 8") (auto simp: list_eq_iff_nth_eq nth_list_update)

lemma wf_tree_leaf:
  assumes "h a = Some nd" "cell_oct nd = replicate 8 None"
  shows "wf_tree (Suc n) h (Some a)" "nodes (Suc n) h (Some a) = {a}"
  using assms by (simp_all add: wf_tree_Suc nodes_Suc)

lemma branch_finish:
  assumes inv1: "tree_inv r1" and a1: "heap r1 a = Some nd1" and neg: "cell_pt nd1 < 0"
    and len: "length (cell_oct nd1) = 8"
    and slots: "\<forall>i<8. wf_tree n (heap r1) (cell_oct nd1 ! i) \<and>
             nodes n (heap r1) (cell_oct nd1 ! i) \<subseteq> C i \<and>
             (\<forall>b\<in>nodes n (heap r1) (cell_oct nd1 ! i). maintained r1 b)"
    and aC: "\<forall>i<8. a \<notin> C i"
    and disj: "\<forall>i<8. \<forall>j<8. i \<noteq> j \<longrightarrow> C i \<inter> C j = {}"
    and rc: "recount a [0..<8] (set_cell r1 a (nd1\<lparr>cell_pt := 0\<rparr>)) (- 1) = Inr (r2, test)"
    and df: "derefine r2 a test = Inr (r', q)"
  shows "(q = None \<or> q = Some a) \<and> wf_tree (Suc n) (heap r') q \<and>
         nodes (Suc n) (heap r') q \<subseteq> insert a (\<Union>i<8. C i) \<and> tree_inv r' \<and>
         (\<forall>b\<in>nodes (Suc n) (heap r') q. maintained r' b) \<and>
         (\<forall>b. b \<noteq> a \<longrightarrow> b \<notin> (\<Union>i<8. C i) \<longrightarrow> relabelled r1 r' b) \<and>
         same_config r1 r'"
proof -
  define K where "K = sum_list (map (occupancy (heap r1)) (cell_oct nd1))"
  note br = branch_recount[OF a1 len slots aC rc, folded K_def]
  note cf = child_facts[OF slots aC]
  have a2: "heap r2 a = Some (nd1\<lparr>cell_pt := - K\<rparr>)" by (simp add: br(1))
  consider "K = 0" | "K = 1" | "2 \<le> K" using br(2) by linarith
  then show ?thesis
  proof cases
    case 1
    from derefine_free[OF a2, of test] 1 df have r': "r' = free_cell r1 a" and q: "q = None"
      by (simp_all add: br(1))
    have "tree_inv r'" unfolding r' using inv1 by (rule tree_inv_free)
    moreover have "\<forall>b. b \<noteq> a \<longrightarrow> relabelled r1 r' b"
      unfolding r' using relabelled_free_cell_other by blast
    ultimately show ?thesis using q by (simp add: r')
  next
    case 2
    from br(4)[OF 2] have t: "0 \<le> test" "test < 8" and lf: "leaf_slot (heap r1) nd1 (nat test)"
      and others: "\<forall>j<8. j \<noteq> nat test \<longrightarrow> cell_oct nd1 ! j = None"
      by blast+
    have t8: "nat test < 8" using t by simp
    from lf obtain d dn where d: "cell_oct nd1 ! nat test = Some d" and dn: "heap r1 d = Some dn"
      and dleaf: "0 \<le> cell_pt dn"
      by (auto simp: leaf_slot_def split: option.splits)
    note dlf = tree_inv_leaf[OF inv1 dn dleaf]
    have da: "d \<noteq> a" and dC: "d \<in> C (nat test)" and dm: "maintained r1 d"
      using cf(1,2,3)[OF t8 d] by blast+
    have d2: "heap r2 d = Some dn" using da dn by (simp add: br(1))
    have "\<exists>r'. derefine r2 a test = Inr (r', Some a) \<and>
       heap r' = (heap r2)(d := None,
          a \<mapsto> nd1\<lparr>cell_pt := - K\<rparr>\<lparr>cell_oct := (cell_oct (nd1\<lparr>cell_pt := - K\<rparr>))[nat test := None],
                                      cell_pt := cell_pt dn\<rparr>) \<and>
       particles r' = (particles r2)[nat (cell_pt dn) :=
          (particles r2 ! nat (cell_pt dn))\<lparr>p_c := Some a\<rparr>] \<and>
       same_config r2 r'"
      by (rule derefine_collapse[OF a2 _ t(1) t(2) _ d2 da dleaf])
         (use 2 d dlf(4) in \<open>simp_all add: br(1)\<close>)
    then obtain r'' where dc: "derefine r2 a test = Inr (r'', Some a)"
      and h'': "heap r'' = (heap r2)(d := None,
          a \<mapsto> nd1\<lparr>cell_pt := - K\<rparr>\<lparr>cell_oct := (cell_oct (nd1\<lparr>cell_pt := - K\<rparr>))[nat test := None],
                                      cell_pt := cell_pt dn\<rparr>)"
      and p'': "particles r'' = (particles r2)[nat (cell_pt dn) :=
          (particles r2 ! nat (cell_pt dn))\<lparr>p_c := Some a\<rparr>]"
      and sc: "same_config r2 r''"
      by blast
    from dc df have r'': "r'' = r'" and q: "q = Some a" by simp_all
    have oct0: "(cell_oct nd1)[nat test := None] = replicate 8 None"
      using len others by (rule all_None_replicate)
    have hp': "heap r' = (heap r1)(d := None,
         a \<mapsto> nd1\<lparr>cell_oct := replicate 8 None, cell_pt := cell_pt dn\<rparr>)"
      using h'' da unfolding r'' by (auto simp: br(1) oct0)
    have ps': "particles r' = (particles r1)[nat (cell_pt dn) :=
         (particles r1 ! nat (cell_pt dn))\<lparr>p_c := Some a\<rparr>]"
      using p'' unfolding r'' by (simp add: br(1))
    have sc1: "same_config r1 r'"
      using same_config_trans[OF same_config_set_cell sc[unfolded br(1)]] unfolding r'' .
    have N': "N r' = N r1" using same_config_fields(1)[OF sc1] .
    have ch: "Some d \<in> set (cell_oct nd1)"
      using d t8 len by (metis nth_mem)
    have ins: "inside_cell (particles r1 ! nat (cell_pt dn)) dn"
      using dm dn dleaf by (simp add: maintained_def)
    note col = tree_inv_collapse[OF inv1 a1 neg dn dleaf ch hp' ps' N']
    have a': "heap r' a = Some (nd1\<lparr>cell_oct := replicate 8 None, cell_pt := cell_pt dn\<rparr>)"
      by (simp add: hp')
    have wl: "wf_tree (Suc n) (heap r') (Some a)" "nodes (Suc n) (heap r') (Some a) = {a}"
      using wf_tree_leaf[where h = "heap r'" and a = a, OF a'] by simp_all
    have "\<forall>b. b \<noteq> a \<longrightarrow> b \<notin> (\<Union>i<8. C i) \<longrightarrow> relabelled r1 r' b"
    proof (intro allI impI)
      fix b assume "b \<noteq> a" "b \<notin> (\<Union>i<8. C i)"
      moreover from this dC t8 have "b \<noteq> d" by blast
      ultimately show "relabelled r1 r' b" using col(2) by blast
    qed
    moreover have "\<forall>b\<in>nodes (Suc n) (heap r') (Some a). maintained r' b"
      using col(3)[OF ins] wl(2) by simp
    moreover have "nodes (Suc n) (heap r') (Some a) \<subseteq> insert a (\<Union>i<8. C i)"
      using wl(2) by simp
    ultimately show ?thesis using col(1) wl(1) sc1 q by blast
  next
    case 3
    from derefine_keep[OF a2, of test] 3 df have r': "r' = set_cell r1 a (nd1\<lparr>cell_pt := - K\<rparr>)"
      and q: "q = Some a"
      by (simp_all add: br(1))
    let ?nd' = "nd1\<lparr>cell_pt := - K\<rparr>"
    have a': "heap r' a = Some ?nd'" by (simp add: r')
    have rel: "relabelled r1 r' b" if "b \<noteq> a" for b
      unfolding r' using that by (rule relabelled_set_cell_other)
    have inv': "tree_inv r'"
    proof -
      have "- K < 0" using 3 by simp
      from tree_inv_branch_update[OF inv1 a1 neg this, of "cell_oct nd1"]
      show ?thesis by (auto simp: r')
    qed
    have sl: "wf_tree n (heap r') (cell_oct nd1 ! i)"
      "nodes n (heap r') (cell_oct nd1 ! i) = nodes n (heap r1) (cell_oct nd1 ! i)"
      "\<And>b. b \<in> nodes n (heap r1) (cell_oct nd1 ! i) \<Longrightarrow> maintained r' b"
      if i: "i < 8" for i
    proof -
      have r: "relabelled r1 r' b" if "b \<in> nodes n (heap r1) (cell_oct nd1 ! i)" for b
      proof -
        have "b \<in> C i" using that slots i by blast
        with aC i have "b \<noteq> a" by blast
        then show ?thesis by (rule rel)
      qed
      from subtree_transfer[of n r1 "cell_oct nd1 ! i" r', OF r] slots i
      show "wf_tree n (heap r') (cell_oct nd1 ! i)"
        "nodes n (heap r') (cell_oct nd1 ! i) = nodes n (heap r1) (cell_oct nd1 ! i)"
        "\<And>b. b \<in> nodes n (heap r1) (cell_oct nd1 ! i) \<Longrightarrow> maintained r' b"
        by blast+
    qed
    have subC: "nodes n (heap r') (cell_oct nd1 ! i) \<subseteq> C i" if "i < 8" for i
      using sl(2)[OF that] slots that by simp
    have wf': "wf_tree (Suc n) (heap r') (Some a)"
      unfolding wf_tree_Suc
    proof (intro exI[of _ ?nd'] conjI allI impI)
      show "heap r' a = Some ?nd'" by (rule a')
      show "length (cell_oct ?nd') = 8" using len by simp
    next
      fix i :: nat assume i: "i < 8"
      show "wf_tree n (heap r') (cell_oct ?nd' ! i)" using sl(1)[OF i] by simp
      show "a \<notin> nodes n (heap r') (cell_oct ?nd' ! i)" using subC[OF i] aC i by auto
    next
      fix i j :: nat assume ij: "i < 8" "j < 8" "i \<noteq> j"
      have "C i \<inter> C j = {}" using disj ij by blast
      then show "nodes n (heap r') (cell_oct ?nd' ! i) \<inter> nodes n (heap r') (cell_oct ?nd' ! j) = {}"
        using subC[OF ij(1)] subC[OF ij(2)] by auto
    qed
    have nodes': "nodes (Suc n) (heap r') (Some a) =
        insert a (\<Union>i<8. nodes n (heap r') (cell_oct nd1 ! i))"
      using nodes_Suc[where h = "heap r'" and a = a and n = n, OF a'] len by simp
    have sub': "nodes (Suc n) (heap r') (Some a) \<subseteq> insert a (\<Union>i<8. C i)"
      unfolding nodes' using subC by blast
    have occ: "occupancy (heap r') x = occupancy (heap r1) x" if "x \<in> set (cell_oct nd1)" for x
    proof -
      from that obtain i where i: "i < 8" "x = cell_oct nd1 ! i"
        using len by (auto simp: in_set_conv_nth)
      have "x \<noteq> Some a" using cf(1)[OF i(1)] i(2) by auto
      then show ?thesis by (simp add: r' occupancy_upd_other)
    qed
    have ma: "maintained r' a"
    proof -
      have "sum_list (map (occupancy (heap r')) (cell_oct nd1)) = K"
        unfolding K_def by (rule arg_cong[where f = sum_list], rule map_cong) (simp_all add: occ)
      with 3 show ?thesis by (simp add: maintained_def a')
    qed
    have mall: "\<forall>b\<in>nodes (Suc n) (heap r') (Some a). maintained r' b"
    proof
      fix b assume "b \<in> nodes (Suc n) (heap r') (Some a)"
      then consider "b = a" | i where "i < 8" "b \<in> nodes n (heap r') (cell_oct nd1 ! i)"
        unfolding nodes' by blast
      then show "maintained r' b"
      proof cases
        case 1
        with ma show ?thesis by simp
      next
        case 2
        with sl(2,3)[OF 2(1)] show ?thesis by simp
      qed
    qed
    have "same_config r1 r'" by (simp add: r')
    with q wf' sub' inv' mall rel show ?thesis by blast
  qed
qed

lemma update_post_None: "tree_inv r \<Longrightarrow> update_post n r None r None"
  by (simp add: update_post_def)

lemma body_contract:
  assumes contract: "update_contract n upd"
  shows "update_contract (Suc n) (tree_update_cell_body upd)"
  unfolding update_contract_def
proof (intro allI impI)
  fix r p r' q
  assume inv: "tree_inv r" and wf: "wf_tree (Suc n) (heap r) p"
    and eq: "tree_update_cell_body upd r p = Inr (r', q)"
  show "update_post (Suc n) r p r' q"
  proof (cases p)
    case None
    with eq have "r' = r" "q = None" by (simp_all add: tree_update_cell_body_def)
    with None inv show ?thesis by (simp add: update_post_None)
  next
    case (Some a)
    from wf Some have "wf_tree (Suc n) (heap r) (Some a)" by simp
    then obtain nd where nd: "heap r a = Some nd" and len: "length (cell_oct nd) = 8"
      and ch: "\<forall>i<8. wf_tree n (heap r) (cell_oct nd ! i) \<and> a \<notin> nodes n (heap r) (cell_oct nd ! i)"
      and disj: "\<forall>i<8. \<forall>j<8. i \<noteq> j \<longrightarrow>
           nodes n (heap r) (cell_oct nd ! i) \<inter> nodes n (heap r) (cell_oct nd ! j) = {}"
      unfolding wf_tree_Suc by blast
    define C where "C i = nodes n (heap r) (cell_oct nd ! i)" for i
    have nodes_a: "nodes (Suc n) (heap r) (Some a) = insert a (\<Union>i<8. C i)"
      using nodes_Suc[where h = "heap r" and a = a and n = n, OF nd] len by (simp add: C_def)
    show ?thesis
    proof (cases "cell_pt nd < 0")
      case False
      then have leaf: "0 \<le> cell_pt nd" by simp
      from eq Some nd False have ul: "update_leaf r a = Inr (r', q)"
        by (simp add: tree_update_cell_body_def)
      from update_leaf_post[OF inv nd leaf ul]
      have cases: "q = Some a \<and> r' = r \<and> maintained r a \<or> q = None"
        and inv': "tree_inv r'" and fr: "\<forall>b. b \<noteq> a \<longrightarrow> relabelled r r' b"
        and sc: "same_config r r'"
        by blast+
      have frame: "\<forall>b. b \<notin> nodes (Suc n) (heap r) p \<longrightarrow> relabelled r r' b"
        using fr Some nodes_a by auto
      from cases show ?thesis
      proof
        assume k: "q = Some a \<and> r' = r \<and> maintained r a"
        have "nodes (Suc n) (heap r) (Some a) = {a}"
          using wf_tree_leaf(2)[where h = "heap r" and a = a, OF nd]
            tree_inv_leaf(1)[OF inv nd leaf] by simp
        with k wf inv Some show ?thesis by (simp add: update_post_def)
      next
        assume "q = None"
        with inv' frame sc show ?thesis by (simp add: update_post_def)
      qed
    next
      case True
      from eq Some nd True obtain r1 nd1 r2 test where
        lp: "update_children upd a [0..<8] r = Inr r1" and a1: "heap r1 a = Some nd1"
        and rc: "recount a [0..<8] (set_cell r1 a (nd1\<lparr>cell_pt := 0\<rparr>)) (- 1) = Inr (r2, test)"
        and df: "derefine r2 a test = Inr (r', q)"
        by (auto simp: tree_update_cell_body_def)
      have sub: "\<forall>i<8. wf_tree n (heap r) (cell_oct nd ! i) \<and>
                  nodes n (heap r) (cell_oct nd ! i) \<subseteq> C i"
        using ch by (simp add: C_def)
      have aC: "\<forall>i<8. a \<notin> C i" using ch by (simp add: C_def)
      have dC: "\<forall>i<8. \<forall>j<8. i \<noteq> j \<longrightarrow> C i \<inter> C j = {}" using disj by (simp add: C_def)
      have mt: "\<forall>i<8. i \<notin> set [0..<8] \<longrightarrow>
                  (\<forall>b\<in>nodes n (heap r) (cell_oct nd ! i). maintained r b)"
        by simp
      have "distinct [0..<8::nat]" "set [0..<8::nat] \<subseteq> {..<8}" by auto
      from update_children_post[OF contract lp this inv nd True len sub aC dC mt]
      obtain oct' where a1': "heap r1 a = Some (nd\<lparr>cell_oct := oct'\<rparr>)" and len': "length oct' = 8"
        and slots: "\<forall>i<8. (oct' ! i = None \<or> oct' ! i = cell_oct nd ! i) \<and>
               wf_tree n (heap r1) (oct' ! i) \<and>
               nodes n (heap r1) (oct' ! i) \<subseteq> C i \<and>
               (\<forall>b\<in>nodes n (heap r1) (oct' ! i). maintained r1 b)"
        and inv1: "tree_inv r1"
        and fr1: "\<forall>b. b \<noteq> a \<longrightarrow> b \<notin> (\<Union>i<8. C i) \<longrightarrow> relabelled r r1 b"
        and sc1: "same_config r r1"
        by blast
      have nd1: "nd1 = nd\<lparr>cell_oct := oct'\<rparr>" using a1 a1' by simp
      have neg1: "cell_pt nd1 < 0" and len1: "length (cell_oct nd1) = 8"
        using True len' by (simp_all add: nd1)
      have slots1: "\<forall>i<8. wf_tree n (heap r1) (cell_oct nd1 ! i) \<and>
             nodes n (heap r1) (cell_oct nd1 ! i) \<subseteq> C i \<and>
             (\<forall>b\<in>nodes n (heap r1) (cell_oct nd1 ! i). maintained r1 b)"
        using slots by (simp add: nd1)
      from branch_finish[OF inv1 a1 neg1 len1 slots1 aC dC rc df]
      have q: "q = None \<or> q = Some a" and wf': "wf_tree (Suc n) (heap r') q"
        and sub': "nodes (Suc n) (heap r') q \<subseteq> insert a (\<Union>i<8. C i)"
        and inv': "tree_inv r'"
        and m': "\<forall>b\<in>nodes (Suc n) (heap r') q. maintained r' b"
        and fr': "\<forall>b. b \<noteq> a \<longrightarrow> b \<notin> (\<Union>i<8. C i) \<longrightarrow> relabelled r1 r' b"
        and sc': "same_config r1 r'"
        by blast+
      have frame: "\<forall>b. b \<notin> nodes (Suc n) (heap r) p \<longrightarrow> relabelled r r' b"
      proof (intro allI impI)
        fix b assume "b \<notin> nodes (Suc n) (heap r) p"
        then have b: "b \<noteq> a" "b \<notin> (\<Union>i<8. C i)" using Some nodes_a by auto
        with fr1 fr' show "relabelled r r' b" using relabelled_trans by blast
      qed
      have "same_config r r'" using sc1 sc' by (rule same_config_trans)
      with q wf' sub' inv' m' frame show ?thesis
        unfolding update_post_def Some nodes_a by blast
    qed
  qed
qed

lemma tree_update_cell_contract: "update_contract n (tree_update_cell n)"
proof (induction n)
  case 0
  show ?case
    unfolding update_contract_def
  proof (intro allI impI)
    fix r p r' q
    assume inv: "tree_inv r" and wf: "wf_tree 0 (heap r) p"
      and eq: "tree_update_cell 0 r p = Inr (r', q)"
    from wf have p: "p = None" by (cases p) simp_all
    with eq have "r' = r" "q = None" by simp_all
    with p inv show "update_post 0 r p r' q" by (simp add: update_post_None)
  qed
next
  case (Suc n)
  then show ?case by (simp add: body_contract)
qed








section \<open>Counting the particles of a maintained tree\<close>





section \<open>A maintained tree is left as it is\<close>





section \<open>The concrete states are well formed\<close>






lemma two_particles_moved_inv: "tree_inv two_particles_moved"
  unfolding tree_inv_def two_particles_moved_def
  by (auto simp: leaf_cell_def nested_def nth_Cons split: if_splits nat.splits)

lemma two_particles_moved_shape:
  "wf_tree 2 (heap two_particles_moved) (Some 0)"
  "disjoint_sets (map (nodes 2 (heap two_particles_moved)) [Some 0])"
  by code_simp+



section \<open>Maintenance: the claims\<close>











text \<open>C9: in \<open>tree_update_cell\<close> on a branch \<open>a\<close> of a well-formed tree, let \<open>r1\<close> be the
  state after the first loop and \<open>(r2, test)\<close> the result of the second loop, started with
  \<open>test = -1\<close>. Whenever the recomputed \<open>pt\<close> of \<open>a\<close> is -1, \<open>test\<close> lies in \<open>[0, 7]\<close>, the
  slot \<open>oct[test]\<close> of \<open>a\<close> holds an allocated leaf, and the collapse step runs without
  error and keeps \<open>a\<close>.\<close>

theorem collapse_child_defined:
  assumes inv: "tree_inv r" and wf: "wf_tree (Suc n) (heap r) (Some a)"
    and nd: "heap r a = Some nd" and neg: "cell_pt nd < 0"
    and lp: "update_children (tree_update_cell n) a [0..<8] r = Inr r1"
    and a1: "heap r1 a = Some nd1"
    and rc: "recount a [0..<8] (set_cell r1 a (nd1\<lparr>cell_pt := 0\<rparr>)) (- 1) = Inr (r2, test)"
    and a2: "heap r2 a = Some nd2" and m1: "cell_pt nd2 = - 1"
  shows "0 \<le> test \<and> test < 8 \<and> leaf_slot (heap r2) nd2 (nat test) \<and>
         (\<exists>r'. derefine r2 a test = Inr (r', Some a))"
proof -
  from wf nd have len: "length (cell_oct nd) = 8"
    and ch: "\<forall>i<8. wf_tree n (heap r) (cell_oct nd ! i) \<and> a \<notin> nodes n (heap r) (cell_oct nd ! i)"
    and disj: "\<forall>i<8. \<forall>j<8. i \<noteq> j \<longrightarrow>
         nodes n (heap r) (cell_oct nd ! i) \<inter> nodes n (heap r) (cell_oct nd ! j) = {}"
    unfolding wf_tree_Suc by auto
  define C where "C i = nodes n (heap r) (cell_oct nd ! i)" for i
  have sub: "\<forall>i<8. wf_tree n (heap r) (cell_oct nd ! i) \<and>
              nodes n (heap r) (cell_oct nd ! i) \<subseteq> C i"
    using ch by (simp add: C_def)
  have aC: "\<forall>i<8. a \<notin> C i" using ch by (simp add: C_def)
  have dC: "\<forall>i<8. \<forall>j<8. i \<noteq> j \<longrightarrow> C i \<inter> C j = {}" using disj by (simp add: C_def)
  have mt: "\<forall>i<8. i \<notin> set [0..<8] \<longrightarrow>
              (\<forall>b\<in>nodes n (heap r) (cell_oct nd ! i). maintained r b)"
    by simp
  have "distinct [0..<8::nat]" "set [0..<8::nat] \<subseteq> {..<8}" by auto
  from update_children_post[OF tree_update_cell_contract lp this inv nd neg len sub aC dC mt]
  obtain oct' where a1': "heap r1 a = Some (nd\<lparr>cell_oct := oct'\<rparr>)" and len': "length oct' = 8"
    and slots: "\<forall>i<8. (oct' ! i = None \<or> oct' ! i = cell_oct nd ! i) \<and>
           wf_tree n (heap r1) (oct' ! i) \<and>
           nodes n (heap r1) (oct' ! i) \<subseteq> C i \<and>
           (\<forall>b\<in>nodes n (heap r1) (oct' ! i). maintained r1 b)"
    and inv1: "tree_inv r1"
    by blast
  have nd1: "nd1 = nd\<lparr>cell_oct := oct'\<rparr>" using a1 a1' by simp
  have len1: "length (cell_oct nd1) = 8" using len' by (simp add: nd1)
  have slots1: "\<forall>i<8. wf_tree n (heap r1) (cell_oct nd1 ! i) \<and>
         nodes n (heap r1) (cell_oct nd1 ! i) \<subseteq> C i \<and>
         (\<forall>b\<in>nodes n (heap r1) (cell_oct nd1 ! i). maintained r1 b)"
    using slots by (simp add: nd1)
  define K where "K = sum_list (map (occupancy (heap r1)) (cell_oct nd1))"
  note br = branch_recount[OF a1 len1 slots1 aC rc, folded K_def]
  note cf = child_facts[OF slots1 aC]
  have nd2: "nd2 = nd1\<lparr>cell_pt := - K\<rparr>" using a2 by (simp add: br(1))
  with m1 have "K = 1" by simp
  from br(4)[OF this] have t: "0 \<le> test" "test < 8"
    and lf: "leaf_slot (heap r1) nd1 (nat test)"
    by blast+
  have t8: "nat test < 8" using t by simp
  from lf obtain d dn where d: "cell_oct nd1 ! nat test = Some d" and dn: "heap r1 d = Some dn"
    and dleaf: "0 \<le> cell_pt dn"
    by (auto simp: leaf_slot_def split: option.splits)
  have da: "d \<noteq> a" using cf(1)[OF t8 d] .
  have d2: "heap r2 d = Some dn" using da dn by (simp add: br(1))
  have lf2: "leaf_slot (heap r2) nd2 (nat test)"
    using d d2 dleaf by (simp add: leaf_slot_def nd2)
  have "\<exists>r'. derefine r2 a test = Inr (r', Some a) \<and>
       heap r' = (heap r2)(d := None,
          a \<mapsto> nd2\<lparr>cell_oct := (cell_oct nd2)[nat test := None], cell_pt := cell_pt dn\<rparr>) \<and>
       particles r' = (particles r2)[nat (cell_pt dn) :=
          (particles r2 ! nat (cell_pt dn))\<lparr>p_c := Some a\<rparr>] \<and>
       same_config r2 r'"
    by (rule derefine_collapse[OF a2 m1 t(1) t(2) _ d2 da dleaf])
       (use d tree_inv_leaf(4)[OF inv1 dn dleaf] in \<open>simp_all add: nd2 br(1)\<close>)
  with t lf2 show ?thesis by blast
qed

lemma case_sum_False: "(case v of Inl e \<Rightarrow> False | Inr x \<Rightarrow> P x) \<Longrightarrow> \<exists>x. v = Inr x \<and> P x"
  by (cases v) simp_all

lemma case_option_False: "(case v of None \<Rightarrow> False | Some x \<Rightarrow> P x) \<Longrightarrow> \<exists>x. v = Some x \<and> P x"
  by (cases v) simp_all

lemma two_moved_chain:
  "(case update_children (tree_update_cell 1) 0 [0..<8] two_particles_moved of
      Inl e \<Rightarrow> False
    | Inr r1 \<Rightarrow>
       (case heap r1 0 of
          None \<Rightarrow> False
        | Some nd1 \<Rightarrow>
           (case recount 0 [0..<8] (set_cell r1 0 (nd1\<lparr>cell_pt := 0\<rparr>)) (- 1) of
              Inl e \<Rightarrow> False
            | Inr (r2, test) \<Rightarrow>
               (case heap r2 0 of None \<Rightarrow> False | Some nd2 \<Rightarrow> cell_pt nd2 = - 1))))"
  by code_simp

theorem collapse_child_defined_witness:
  "tree_inv two_particles_moved \<and> wf_tree (Suc 1) (heap two_particles_moved) (Some 0) \<and>
   (\<exists>nd r1 nd1 r2 test nd2.
      heap two_particles_moved 0 = Some nd \<and> cell_pt nd < 0 \<and>
      update_children (tree_update_cell 1) 0 [0..<8] two_particles_moved = Inr r1 \<and>
      heap r1 0 = Some nd1 \<and>
      recount 0 [0..<8] (set_cell r1 0 (nd1\<lparr>cell_pt := 0\<rparr>)) (- 1) = Inr (r2, test) \<and>
      heap r2 0 = Some nd2 \<and> cell_pt nd2 = - 1 \<and>
      0 \<le> test \<and> test < 8 \<and> leaf_slot (heap r2) nd2 (nat test) \<and>
      (\<exists>r'. derefine r2 0 test = Inr (r', Some 0)))"
proof -
  have wf: "wf_tree (Suc 1) (heap two_particles_moved) (Some 0)"
    using two_particles_moved_shape(1) by (simp add: numeral_2_eq_2)
  obtain nd where nd: "heap two_particles_moved 0 = Some nd" "cell_pt nd < 0"
    by (simp add: two_particles_moved_def)
  from case_sum_False[OF two_moved_chain] obtain r1 where
    c1: "update_children (tree_update_cell 1) 0 [0..<8] two_particles_moved = Inr r1"
    and k1: "case heap r1 0 of None \<Rightarrow> False
        | Some nd1 \<Rightarrow>
           (case recount 0 [0..<8] (set_cell r1 0 (nd1\<lparr>cell_pt := 0\<rparr>)) (- 1) of
              Inl e \<Rightarrow> False
            | Inr (r2, test) \<Rightarrow>
               (case heap r2 0 of None \<Rightarrow> False | Some nd2 \<Rightarrow> cell_pt nd2 = - 1))"
    by blast
  from case_option_False[OF k1] obtain nd1 where
    c2: "heap r1 0 = Some nd1"
    and k2: "case recount 0 [0..<8] (set_cell r1 0 (nd1\<lparr>cell_pt := 0\<rparr>)) (- 1) of
              Inl e \<Rightarrow> False
            | Inr (r2, test) \<Rightarrow>
               (case heap r2 0 of None \<Rightarrow> False | Some nd2 \<Rightarrow> cell_pt nd2 = - 1)"
    by blast
  from case_sum_False[OF k2] obtain x where
    c3': "recount 0 [0..<8] (set_cell r1 0 (nd1\<lparr>cell_pt := 0\<rparr>)) (- 1) = Inr x"
    and k3': "case x of (r2, test) \<Rightarrow>
               (case heap r2 0 of None \<Rightarrow> False | Some nd2 \<Rightarrow> cell_pt nd2 = - 1)"
    by blast
  obtain r2 test where x: "x = (r2, test)" by (cases x)
  have c3: "recount 0 [0..<8] (set_cell r1 0 (nd1\<lparr>cell_pt := 0\<rparr>)) (- 1) = Inr (r2, test)"
    using c3' x by simp
  have k3: "case heap r2 0 of None \<Rightarrow> False | Some nd2 \<Rightarrow> cell_pt nd2 = - 1"
    using k3' x by simp
  from case_option_False[OF k3] obtain nd2 where c4: "heap r2 0 = Some nd2" "cell_pt nd2 = - 1"
    by blast
  note c = c1 c2 c3 c4
  from collapse_child_defined[OF two_particles_moved_inv wf nd c]
  show ?thesis using two_particles_moved_inv wf nd c by blast
qed

section \<open>Eviction of a leaf\<close>




section \<open>Moment aggregation writes moments only\<close>

lemma sbm_refl [simp]: "same_but_moments h h"
  by (simp add: same_but_moments_def)

lemma sbm_trans: "same_but_moments h h1 \<Longrightarrow> same_but_moments h1 h2 \<Longrightarrow> same_but_moments h h2"
  by (simp add: same_but_moments_def)

lemma sbm_upd:
  "h a = Some nd \<Longrightarrow> moments_cleared nd' = moments_cleared nd \<Longrightarrow>
   same_but_moments h (h(a \<mapsto> nd'))"
  by (simp add: same_but_moments_def)

lemma cleared_oct: "moments_cleared c' = moments_cleared c \<Longrightarrow> cell_oct c' = cell_oct c"
  by (drule arg_cong[where f = cell_oct]) (simp add: moments_cleared_def)

lemma cleared_pt: "moments_cleared c' = moments_cleared c \<Longrightarrow> cell_pt c' = cell_pt c"
  by (drule arg_cong[where f = cell_pt]) (simp add: moments_cleared_def)

lemma cleared_geometry: "moments_cleared c' = moments_cleared c \<Longrightarrow> same_geometry c c'"
  unfolding same_geometry_def
  apply (frule arg_cong[where f = cell_x])
  apply (frule arg_cong[where f = cell_y])
  apply (frule arg_cong[where f = cell_z])
  apply (drule arg_cong[where f = cell_w])
  apply (simp add: moments_cleared_def)
  done

lemma sbm_cell:
  "same_but_moments h h' \<Longrightarrow> h a = Some c \<Longrightarrow>
   \<exists>c'. h' a = Some c' \<and> moments_cleared c' = moments_cleared c"
  unfolding same_but_moments_def
  by (drule spec[where x = a]) (cases "h' a"; simp)

lemma sbm_cell_rev:
  "same_but_moments h h' \<Longrightarrow> h' a = Some c' \<Longrightarrow>
   \<exists>c. h a = Some c \<and> moments_cleared c' = moments_cleared c"
  unfolding same_but_moments_def
  by (drule spec[where x = a]) (cases "h a"; simp)

lemma sbm_oct: "same_but_moments h h' \<Longrightarrow> map_option cell_oct (h' b) = map_option cell_oct (h b)"
proof (cases "h b")
  case None
  assume "same_but_moments h h'"
  then have "map_option moments_cleared (h' b) = map_option moments_cleared (h b)"
    by (simp add: same_but_moments_def)
  with None show ?thesis by simp
next
  case (Some c)
  assume "same_but_moments h h'"
  from sbm_cell[OF this Some] obtain c' where c': "h' b = Some c'"
    "moments_cleared c' = moments_cleared c" by blast
  from cleared_oct[OF c'(2)] c'(1) Some show ?thesis by simp
qed

lemma sbm_nodes: "same_but_moments h h' \<Longrightarrow> nodes n h' p = nodes n h p"
  by (rule nodes_cong) (blast dest: sbm_oct)

lemma sbm_wf_tree: "same_but_moments h h' \<Longrightarrow> wf_tree n h' p = wf_tree n h p"
  by (rule wf_tree_cong) (blast dest: sbm_oct)

lemma rest_of_set_cell [simp]: "rest_of (set_cell r a c) = rest_of r"
  by (simp add: rest_of_def set_cell_def)

lemma rest_of_particles: "rest_of r' = rest_of r \<Longrightarrow> particles r' = particles r"
  by (drule arg_cong[where f = particles]) (simp add: rest_of_def)

lemma gravity_ready_None [simp]: "gravity_ready n r None"
  by (simp add: gravity_ready_def)

lemma gravity_ready_cong:
  assumes sbm: "same_but_moments (heap r) (heap r')" and rest: "rest_of r' = rest_of r"
  shows "gravity_ready n r' p = gravity_ready n r p"
proof -
  have pt: "(case heap r' b of None \<Rightarrow> True | Some c \<Rightarrow> leaf_ready r' c) =
            (case heap r b of None \<Rightarrow> True | Some c \<Rightarrow> leaf_ready r c)" for b
  proof (cases "heap r b")
    case None
    from sbm have "map_option moments_cleared (heap r' b) = map_option moments_cleared (heap r b)"
      by (simp add: same_but_moments_def)
    with None have "heap r' b = None" by simp
    with None show ?thesis by simp
  next
    case (Some c)
    from sbm_cell[OF sbm Some] obtain c' where c': "heap r' b = Some c'"
      "moments_cleared c' = moments_cleared c" by blast
    from cleared_pt[OF c'(2)] cleared_oct[OF c'(2)] Some c'(1) rest_of_particles[OF rest]
    show ?thesis by (simp add: leaf_ready_def)
  qed
  show ?thesis
    unfolding gravity_ready_def sbm_nodes[OF sbm] sbm_wf_tree[OF sbm] pt ..
qed

lemma child_cells_Nil [simp]: "child_cells h nd [] = []"
  by (simp add: child_cells_def)

lemma child_cells_None:
  "cell_oct nd ! i = None \<Longrightarrow> child_cells h nd (i # os) = child_cells h nd os"
  by (simp add: child_cells_def)

lemma child_cells_Some:
  "cell_oct nd ! i = Some d \<Longrightarrow> h d = Some dn \<Longrightarrow>
   child_cells h nd (i # os) = dn # child_cells h nd os"
  by (simp add: child_cells_def)

lemma child_cells_oct:
  "cell_oct nd' = cell_oct nd \<Longrightarrow> child_cells h nd' os = child_cells h nd os"
  by (simp add: child_cells_def)

lemma map_filter_cong_set:
  "(\<And>x. x \<in> set xs \<Longrightarrow> f x = g x) \<Longrightarrow> List.map_filter f xs = List.map_filter g xs"
  by (induction xs) (auto simp: map_filter_simps split: option.splits)

lemma child_cells_upd:
  assumes "\<forall>i\<in>set os. cell_oct nd ! i \<noteq> Some a"
  shows "child_cells (h(a \<mapsto> c)) nd os = child_cells h nd os"
  unfolding child_cells_def
proof (rule map_filter_cong_set)
  fix i assume "i \<in> set os"
  with assms have "cell_oct nd ! i \<noteq> Some a" by blast
  then show "(case cell_oct nd ! i of None \<Rightarrow> None | Some d \<Rightarrow> (h(a \<mapsto> c)) d) =
             (case cell_oct nd ! i of None \<Rightarrow> None | Some d \<Rightarrow> h d)"
    by (cases "cell_oct nd ! i") auto
qed

lemma gravity_children_skip:
  "heap r a = Some nd \<Longrightarrow> cell_oct nd ! i = None \<Longrightarrow>
   gravity_children ar grav a (i # os) r = gravity_children ar grav a os r"
  by simp

lemma gravity_children_call:
  assumes nd: "heap r a = Some nd" and d: "cell_oct nd ! i = Some d"
    and g: "grav r d = Inr r1" and dn: "heap r1 d = Some dn" and nd1: "heap r1 a = Some nd1"
  shows "gravity_children ar grav a (i # os) r =
     gravity_children ar grav a os
       (set_cell r1 a
          (nd1\<lparr>cell_mx := fadd ar (cell_mx nd1) (fmul ar (cell_mx dn) (cell_m dn)),
               cell_my := fadd ar (cell_my nd1) (fmul ar (cell_my dn) (cell_m dn)),
               cell_mz := fadd ar (cell_mz nd1) (fmul ar (cell_mz dn) (cell_m dn)),
               cell_m := fadd ar (cell_m nd1) (cell_m dn)\<rparr>))"
proof -
  have c: "get_cell r a = Inr nd" using nd by simp
  have c1: "get_cell r1 d = Inr dn" using dn by simp
  have c2: "get_cell r1 a = Inr nd1" using nd1 by simp
  show ?thesis
    unfolding gravity_children.simps c rbind_simps d option.case g c1 c2 Let_def ..
qed

lemma gravity_children_total:
  assumes contract: "gravity_contract ar n grav"
  shows "distinct os \<Longrightarrow> set os \<subseteq> {..<8} \<Longrightarrow> heap r a = Some nd \<Longrightarrow>
     \<forall>i<8. gravity_ready n r (cell_oct nd ! i) \<and> a \<notin> nodes n (heap r) (cell_oct nd ! i) \<Longrightarrow>
     \<forall>i<8. \<forall>j<8. i \<noteq> j \<longrightarrow>
        nodes n (heap r) (cell_oct nd ! i) \<inter> nodes n (heap r) (cell_oct nd ! j) = {} \<Longrightarrow>
     \<exists>r' nd'. gravity_children ar grav a os r = Inr r' \<and>
        heap r' a = Some nd' \<and> moments_cleared nd' = moments_cleared nd \<and>
        cell_m nd' = foldl (fadd ar) (cell_m nd) (map cell_m (child_cells (heap r') nd os)) \<and>
        cell_mx nd' = foldl (fadd ar) (cell_mx nd)
                        (map (weighted ar cell_mx) (child_cells (heap r') nd os)) \<and>
        cell_my nd' = foldl (fadd ar) (cell_my nd)
                        (map (weighted ar cell_my) (child_cells (heap r') nd os)) \<and>
        cell_mz nd' = foldl (fadd ar) (cell_mz nd)
                        (map (weighted ar cell_mz) (child_cells (heap r') nd os)) \<and>
        rest_of r' = rest_of r \<and> same_but_moments (heap r) (heap r') \<and>
        (\<forall>b. b \<noteq> a \<longrightarrow> b \<notin> (\<Union>i\<in>set os. nodes n (heap r) (cell_oct nd ! i)) \<longrightarrow>
             heap r' b = heap r b) \<and>
        (sound_sums ar \<longrightarrow> (\<forall>p\<in>set (particles r). 0 \<le> p_m p) \<longrightarrow>
           (\<forall>i\<in>set os. \<forall>b\<in>nodes n (heap r) (cell_oct nd ! i). \<forall>c.
              heap r' b = Some c \<longrightarrow> 0 \<le> cell_m c))"
proof (induction os arbitrary: r nd)
  case Nil
  show ?case using Nil.prems(3) by simp
next
  case (Cons i os)
  note nd = Cons.prems(3)
  have sub: "gravity_ready n r (cell_oct nd ! j)" "a \<notin> nodes n (heap r) (cell_oct nd ! j)"
    if "j < 8" for j using Cons.prems(4) that by blast+
  have disj: "nodes n (heap r) (cell_oct nd ! j) \<inter> nodes n (heap r) (cell_oct nd ! k) = {}"
    if "j < 8" "k < 8" "j \<noteq> k" for j k using Cons.prems(5) that by blast
  have i8: "i < 8" and i_os: "i \<notin> set os" and dist: "distinct os" and os8: "set os \<subseteq> {..<8}"
    using Cons.prems(1,2) by auto
  show ?case
  proof (cases "cell_oct nd ! i")
    case None
    from Cons.IH[OF dist os8 nd Cons.prems(4,5)] obtain r' nd' where
      IH: "gravity_children ar grav a os r = Inr r' \<and>
        heap r' a = Some nd' \<and> moments_cleared nd' = moments_cleared nd \<and>
        cell_m nd' = foldl (fadd ar) (cell_m nd) (map cell_m (child_cells (heap r') nd os)) \<and>
        cell_mx nd' = foldl (fadd ar) (cell_mx nd)
                        (map (weighted ar cell_mx) (child_cells (heap r') nd os)) \<and>
        cell_my nd' = foldl (fadd ar) (cell_my nd)
                        (map (weighted ar cell_my) (child_cells (heap r') nd os)) \<and>
        cell_mz nd' = foldl (fadd ar) (cell_mz nd)
                        (map (weighted ar cell_mz) (child_cells (heap r') nd os)) \<and>
        rest_of r' = rest_of r \<and> same_but_moments (heap r) (heap r') \<and>
        (\<forall>b. b \<noteq> a \<longrightarrow> b \<notin> (\<Union>i\<in>set os. nodes n (heap r) (cell_oct nd ! i)) \<longrightarrow>
             heap r' b = heap r b) \<and>
        (sound_sums ar \<longrightarrow> (\<forall>p\<in>set (particles r). 0 \<le> p_m p) \<longrightarrow>
           (\<forall>i\<in>set os. \<forall>b\<in>nodes n (heap r) (cell_oct nd ! i). \<forall>c.
              heap r' b = Some c \<longrightarrow> 0 \<le> cell_m c))"
      by blast
    have e: "nodes n (heap r) (cell_oct nd ! i) = {}" unfolding None by simp
    show ?thesis
      unfolding gravity_children_skip[OF nd None] child_cells_None[OF None]
      using IH e by (intro exI[where x = r'] exI[where x = nd']) simp
  next
    case (Some d)
    have rd: "gravity_ready n r (Some d)" and ad: "a \<notin> nodes n (heap r) (Some d)"
      using sub[OF i8] Some by simp_all
    from contract rd obtain r1 where call: "grav r d = Inr r1" and post: "gravity_post ar n r d r1"
      unfolding gravity_contract_def by blast
    from post have rest1: "rest_of r1 = rest_of r" and sbm1: "same_but_moments (heap r) (heap r1)"
      and fr1: "\<And>b. b \<notin> nodes n (heap r) (Some d) \<Longrightarrow> heap r1 b = heap r b"
      and nn1: "sound_sums ar \<Longrightarrow> (\<forall>p\<in>set (particles r). 0 \<le> p_m p) \<Longrightarrow>
         (\<forall>b\<in>nodes n (heap r) (Some d). \<forall>c. heap r1 b = Some c \<longrightarrow> 0 \<le> cell_m c)"
      unfolding gravity_post_def by blast+
    from rd have "wf_tree n (heap r) (Some d)" by (simp add: gravity_ready_def)
    from wf_tree_live[OF this] obtain dn0 where "heap r d = Some dn0" by blast
    from sbm_cell[OF sbm1 this] obtain dn where dn: "heap r1 d = Some dn" by blast
    have nd1: "heap r1 a = Some nd" using fr1[OF ad] nd by simp
    have da: "d \<noteq> a" using ad by auto
    let ?nd2 = "nd\<lparr>cell_mx := fadd ar (cell_mx nd) (fmul ar (cell_mx dn) (cell_m dn)),
               cell_my := fadd ar (cell_my nd) (fmul ar (cell_my dn) (cell_m dn)),
               cell_mz := fadd ar (cell_mz nd) (fmul ar (cell_mz dn) (cell_m dn)),
               cell_m := fadd ar (cell_m nd) (cell_m dn)\<rparr>"
    let ?r2 = "set_cell r1 a ?nd2"
    note step = gravity_children_call[where r = r and a = a and nd = nd and grav = grav
        and ar = ar and os = os, OF nd Some call dn nd1]
    have cl2: "moments_cleared ?nd2 = moments_cleared nd" by (simp add: moments_cleared_def)
    have oct2: "cell_oct ?nd2 = cell_oct nd" by simp
    have sbm12: "same_but_moments (heap r1) (heap ?r2)"
      unfolding heap_set_cell
      by (rule sbm_upd[where h = "heap r1" and a = a and nd = nd, OF nd1 cl2])
    have sbm2: "same_but_moments (heap r) (heap ?r2)" by (rule sbm_trans[OF sbm1 sbm12])
    have rest2: "rest_of ?r2 = rest_of r" using rest1 by simp
    have nodes2: "nodes n (heap ?r2) q = nodes n (heap r) q" for q
      by (rule sbm_nodes[OF sbm2])
    have ready2: "gravity_ready n ?r2 q = gravity_ready n r q" for q
      by (rule gravity_ready_cong[OF sbm2 rest2])
    have a2: "heap ?r2 a = Some ?nd2" by simp
    have p4: "\<forall>j<8. gravity_ready n ?r2 (cell_oct ?nd2 ! j) \<and>
                a \<notin> nodes n (heap ?r2) (cell_oct ?nd2 ! j)"
      unfolding nodes2 ready2 oct2 using sub by blast
    have p5: "\<forall>j<8. \<forall>k<8. j \<noteq> k \<longrightarrow>
        nodes n (heap ?r2) (cell_oct ?nd2 ! j) \<inter> nodes n (heap ?r2) (cell_oct ?nd2 ! k) = {}"
      unfolding nodes2 oct2 using disj by blast
    from Cons.IH[OF dist os8 a2 p4 p5] obtain r' nd' where
      run: "gravity_children ar grav a os ?r2 = Inr r'"
      and a': "heap r' a = Some nd'" and cl': "moments_cleared nd' = moments_cleared ?nd2"
      and m': "cell_m nd' = foldl (fadd ar) (cell_m ?nd2)
                 (map cell_m (child_cells (heap r') ?nd2 os))"
      and mx': "cell_mx nd' = foldl (fadd ar) (cell_mx ?nd2)
                 (map (weighted ar cell_mx) (child_cells (heap r') ?nd2 os))"
      and my': "cell_my nd' = foldl (fadd ar) (cell_my ?nd2)
                 (map (weighted ar cell_my) (child_cells (heap r') ?nd2 os))"
      and mz': "cell_mz nd' = foldl (fadd ar) (cell_mz ?nd2)
                 (map (weighted ar cell_mz) (child_cells (heap r') ?nd2 os))"
      and rest': "rest_of r' = rest_of ?r2" and sbm': "same_but_moments (heap ?r2) (heap r')"
      and fr': "\<And>b. b \<noteq> a \<Longrightarrow> b \<notin> (\<Union>j\<in>set os. nodes n (heap ?r2) (cell_oct ?nd2 ! j)) \<Longrightarrow>
             heap r' b = heap ?r2 b"
      and nn': "sound_sums ar \<Longrightarrow> (\<forall>p\<in>set (particles ?r2). 0 \<le> p_m p) \<Longrightarrow>
           (\<forall>j\<in>set os. \<forall>b\<in>nodes n (heap ?r2) (cell_oct ?nd2 ! j). \<forall>c.
              heap r' b = Some c \<longrightarrow> 0 \<le> cell_m c)"
      by blast
    have out: "b \<notin> (\<Union>j\<in>set os. nodes n (heap ?r2) (cell_oct ?nd2 ! j))"
      if "b \<in> nodes n (heap r) (Some d)" for b
    proof
      assume "b \<in> (\<Union>j\<in>set os. nodes n (heap ?r2) (cell_oct ?nd2 ! j))"
      then obtain j where j: "j \<in> set os" and bj: "b \<in> nodes n (heap r) (cell_oct nd ! j)"
        unfolding nodes2 oct2 by blast
      from j os8 i_os have j8: "j < 8" and ji: "i \<noteq> j" by auto
      have "b \<in> nodes n (heap r) (cell_oct nd ! i)" using that Some by simp
      with bj disj[OF i8 j8 ji] show False by blast
    qed
    have keep: "heap r' b = heap r1 b" if "b \<in> nodes n (heap r) (Some d)" for b
    proof -
      from that ad have "b \<noteq> a" by auto
      with fr'[OF this out[OF that]] show ?thesis by simp
    qed
    have d': "heap r' d = Some dn" using keep[of d] dn by simp
    have cc: "child_cells (heap r') nd (i # os) = dn # child_cells (heap r') nd os"
      by (rule child_cells_Some[where h = "heap r'", OF Some d'])
    have co: "child_cells (heap r') ?nd2 os = child_cells (heap r') nd os"
      by (rule child_cells_oct[OF oct2])
    have M: "cell_m nd' = foldl (fadd ar) (cell_m nd)
               (map cell_m (child_cells (heap r') nd (i # os)))"
      using m' unfolding co cc by simp
    have MX: "cell_mx nd' = foldl (fadd ar) (cell_mx nd)
               (map (weighted ar cell_mx) (child_cells (heap r') nd (i # os)))"
      using mx' unfolding co cc by (simp add: weighted_def)
    have MY: "cell_my nd' = foldl (fadd ar) (cell_my nd)
               (map (weighted ar cell_my) (child_cells (heap r') nd (i # os)))"
      using my' unfolding co cc by (simp add: weighted_def)
    have MZ: "cell_mz nd' = foldl (fadd ar) (cell_mz nd)
               (map (weighted ar cell_mz) (child_cells (heap r') nd (i # os)))"
      using mz' unfolding co cc by (simp add: weighted_def)
    have CL: "moments_cleared nd' = moments_cleared nd" using cl' cl2 by simp
    have REST: "rest_of r' = rest_of r" using rest' rest2 by simp
    have SBM: "same_but_moments (heap r) (heap r')" by (rule sbm_trans[OF sbm2 sbm'])
    have FR: "\<forall>b. b \<noteq> a \<longrightarrow> b \<notin> (\<Union>j\<in>set (i # os). nodes n (heap r) (cell_oct nd ! j)) \<longrightarrow>
             heap r' b = heap r b"
    proof (intro allI impI)
      fix b assume ba: "b \<noteq> a"
        and bn: "b \<notin> (\<Union>j\<in>set (i # os). nodes n (heap r) (cell_oct nd ! j))"
      from bn have b1: "b \<notin> nodes n (heap r) (Some d)"
        and b2: "b \<notin> (\<Union>j\<in>set os. nodes n (heap ?r2) (cell_oct ?nd2 ! j))"
        unfolding nodes2 oct2 using Some by auto
      from fr'[OF ba b2] ba fr1[OF b1] show "heap r' b = heap r b" by simp
    qed
    have NN: "sound_sums ar \<longrightarrow> (\<forall>p\<in>set (particles r). 0 \<le> p_m p) \<longrightarrow>
           (\<forall>j\<in>set (i # os). \<forall>b\<in>nodes n (heap r) (cell_oct nd ! j). \<forall>c.
              heap r' b = Some c \<longrightarrow> 0 \<le> cell_m c)"
    proof (intro impI ballI allI)
      fix j b c
      assume s: "sound_sums ar" and pm: "\<forall>p\<in>set (particles r). 0 \<le> p_m p"
        and j: "j \<in> set (i # os)" and b: "b \<in> nodes n (heap r) (cell_oct nd ! j)"
        and c: "heap r' b = Some c"
      have pm2: "\<forall>p\<in>set (particles ?r2). 0 \<le> p_m p"
        using pm rest_of_particles[OF rest1] by simp
      show "0 \<le> cell_m c"
      proof (cases "j = i")
        case True
        with b Some have bd: "b \<in> nodes n (heap r) (Some d)" by simp
        from keep[OF bd] c have "heap r1 b = Some c" by simp
        with nn1[OF s pm] bd show ?thesis by blast
      next
        case False
        with j have "j \<in> set os" by simp
        moreover have "b \<in> nodes n (heap ?r2) (cell_oct ?nd2 ! j)"
          unfolding nodes2 oct2 by (rule b)
        ultimately show ?thesis using nn'[OF s pm2] c by blast
      qed
    qed
    show ?thesis
      unfolding step
      using run a' CL M MX MY MZ REST SBM FR NN
      by (intro exI[where x = r'] exI[where x = nd'] conjI)
  qed
qed

lemma child_cells_set:
  "k \<in> set (child_cells h nd os) \<Longrightarrow> \<exists>i\<in>set os. \<exists>d. cell_oct nd ! i = Some d \<and> h d = Some k"
  unfolding child_cells_def
  by (induction os) (auto simp: map_filter_simps split: option.splits)

lemma foldl_nonneg:
  assumes s: "sound_sums ar"
  shows "0 \<le> acc \<Longrightarrow> \<forall>x\<in>set xs. 0 \<le> x \<Longrightarrow>
     0 \<le> foldl (fadd ar) acc xs \<and>
     (foldl (fadd ar) acc xs = 0 \<longrightarrow> acc = 0 \<and> (\<forall>x\<in>set xs. x = 0))"
proof (induction xs arbitrary: acc)
  case Nil
  then show ?case by simp
next
  case (Cons x xs)
  from Cons.prems have x: "0 \<le> x" and xs: "\<forall>y\<in>set xs. 0 \<le> y" by simp_all
  from s Cons.prems(1) x have a: "0 \<le> fadd ar acc x"
    and z: "fadd ar acc x = 0 \<Longrightarrow> acc = 0 \<and> x = 0"
    unfolding sound_sums_def by blast+
  from Cons.IH[OF a xs] z show ?case by auto
qed

lemma foldl_zero:
  assumes s: "sound_sums ar"
  shows "\<forall>k\<in>set ks. cell_m k = 0 \<Longrightarrow> foldl (fadd ar) 0 (map (weighted ar f) ks) = 0"
proof (induction ks)
  case Nil
  show ?case by simp
next
  case (Cons k ks)
  from s have "fadd ar 0 0 = 0" "fmul ar (f k) 0 = 0" unfolding sound_sums_def by blast+
  with Cons show ?case by (simp add: weighted_def)
qed

lemma gravity_leaf_eq:
  assumes nd: "heap r a = Some nd" and leaf: "0 \<le> cell_pt nd"
    and idx: "nat (cell_pt nd) < length (particles r)"
  shows "tree_update_gravity_data_in_cell_body ar grav r a =
     Inr (set_cell r a (nd\<lparr>cell_m := p_m (particles r ! nat (cell_pt nd)),
                           cell_mx := p_x (particles r ! nat (cell_pt nd)),
                           cell_my := p_y (particles r ! nat (cell_pt nd)),
                           cell_mz := p_z (particles r ! nat (cell_pt nd))\<rparr>))"
proof -
  have c: "get_cell r a = Inr nd" using nd by simp
  have nl: "\<not> cell_pt nd < 0" using leaf by simp
  have p: "get_particle r (cell_pt nd) = Inr (particles r ! nat (cell_pt nd))"
    using leaf idx by simp
  show ?thesis
    unfolding tree_update_gravity_data_in_cell_body_def c rbind_simps if_not_P[OF nl] p ..
qed

lemma gravity_branch_eq:
  assumes nd: "heap r a = Some nd" and neg: "cell_pt nd < 0"
    and loop: "gravity_children ar grav a [0..<8]
       (set_cell r a (nd\<lparr>cell_m := 0, cell_mx := 0, cell_my := 0, cell_mz := 0\<rparr>)) = Inr r1"
    and nd1: "heap r1 a = Some nd1"
  shows "tree_update_gravity_data_in_cell_body ar grav r a =
     Inr (if 0 < cell_m nd1
          then set_cell r1 a (nd1\<lparr>cell_mx := fdiv ar (cell_mx nd1) (cell_m nd1),
                                    cell_my := fdiv ar (cell_my nd1) (cell_m nd1),
                                    cell_mz := fdiv ar (cell_mz nd1) (cell_m nd1)\<rparr>)
          else r1)"
proof -
  have c: "get_cell r a = Inr nd" using nd by simp
  have c1: "get_cell r1 a = Inr nd1" using nd1 by simp
  show ?thesis
    unfolding tree_update_gravity_data_in_cell_body_def c rbind_simps if_P[OF neg] loop c1 Let_def
    by (cases "0 < cell_m nd1") simp_all
qed

text \<open>The branch case: the accumulated sums, before and after the division.\<close>

lemma gravity_branch:
  assumes contract: "gravity_contract ar n grav"
    and ready: "gravity_ready (Suc n) r (Some a)"
    and nd: "heap r a = Some nd" and neg: "cell_pt nd < 0"
  shows "\<exists>r' nd'. tree_update_gravity_data_in_cell_body ar grav r a = Inr r' \<and>
     heap r' a = Some nd' \<and> moments_cleared nd' = moments_cleared nd \<and>
     cell_m nd' = fsum ar (map cell_m (child_cells (heap r') nd [0..<8])) \<and>
     cell_mx nd' = (if 0 < cell_m nd'
        then fdiv ar (fsum ar (map (weighted ar cell_mx) (child_cells (heap r') nd [0..<8])))
               (cell_m nd')
        else fsum ar (map (weighted ar cell_mx) (child_cells (heap r') nd [0..<8]))) \<and>
     cell_my nd' = (if 0 < cell_m nd'
        then fdiv ar (fsum ar (map (weighted ar cell_my) (child_cells (heap r') nd [0..<8])))
               (cell_m nd')
        else fsum ar (map (weighted ar cell_my) (child_cells (heap r') nd [0..<8]))) \<and>
     cell_mz nd' = (if 0 < cell_m nd'
        then fdiv ar (fsum ar (map (weighted ar cell_mz) (child_cells (heap r') nd [0..<8])))
               (cell_m nd')
        else fsum ar (map (weighted ar cell_mz) (child_cells (heap r') nd [0..<8]))) \<and>
     rest_of r' = rest_of r \<and> same_but_moments (heap r) (heap r') \<and>
     (\<forall>b. b \<notin> nodes (Suc n) (heap r) (Some a) \<longrightarrow> heap r' b = heap r b) \<and>
     (sound_sums ar \<longrightarrow> (\<forall>p\<in>set (particles r). 0 \<le> p_m p) \<longrightarrow>
        (\<forall>b\<in>nodes (Suc n) (heap r) (Some a). \<forall>c. heap r' b = Some c \<longrightarrow> 0 \<le> cell_m c))"
proof -
  let ?nd0 = "nd\<lparr>cell_m := 0, cell_mx := 0, cell_my := 0, cell_mz := 0\<rparr>"
  let ?r0 = "set_cell r a ?nd0"
  let ?os = "[0..<8] :: nat list"
  from ready have wf: "wf_tree (Suc n) (heap r) (Some a)"
    and lv: "\<And>b. b \<in> nodes (Suc n) (heap r) (Some a) \<Longrightarrow>
               (case heap r b of None \<Rightarrow> True | Some c \<Rightarrow> leaf_ready r c)"
    unfolding gravity_ready_def by blast+
  from wf nd have len: "length (cell_oct nd) = 8"
    and sub: "\<And>i. i < 8 \<Longrightarrow> wf_tree n (heap r) (cell_oct nd ! i) \<and>
                a \<notin> nodes n (heap r) (cell_oct nd ! i)"
    and disj: "\<And>i j. i < 8 \<Longrightarrow> j < 8 \<Longrightarrow> i \<noteq> j \<Longrightarrow>
          nodes n (heap r) (cell_oct nd ! i) \<inter> nodes n (heap r) (cell_oct nd ! j) = {}"
    unfolding wf_tree_Suc by auto
  note nS = nodes_Suc[where h = "heap r" and a = a and nd = nd and n = n, OF nd, unfolded len]
  have ready_child: "gravity_ready n r (cell_oct nd ! i)" if "i < 8" for i
    unfolding gravity_ready_def
  proof (intro conjI ballI)
    show "wf_tree n (heap r) (cell_oct nd ! i)" using sub[OF that] by simp
    fix b assume "b \<in> nodes n (heap r) (cell_oct nd ! i)"
    with that have "b \<in> nodes (Suc n) (heap r) (Some a)" unfolding nS by blast
    from lv[OF this] show "case heap r b of None \<Rightarrow> True | Some c \<Rightarrow> leaf_ready r c" .
  qed
  have cl0: "moments_cleared ?nd0 = moments_cleared nd" by (simp add: moments_cleared_def)
  have sbm0: "same_but_moments (heap r) (heap ?r0)"
    unfolding heap_set_cell
    by (rule sbm_upd[where h = "heap r" and a = a and nd = nd, OF nd cl0])
  have rest0: "rest_of ?r0 = rest_of r" by simp
  have nodes0: "nodes n (heap ?r0) q = nodes n (heap r) q" for q by (rule sbm_nodes[OF sbm0])
  have ready0: "gravity_ready n ?r0 q = gravity_ready n r q" for q
    by (rule gravity_ready_cong[OF sbm0 rest0])
  have a0: "heap ?r0 a = Some ?nd0" by simp
  have oct0: "cell_oct ?nd0 = cell_oct nd" by simp
  have p4: "\<forall>i<8. gravity_ready n ?r0 (cell_oct ?nd0 ! i) \<and>
                a \<notin> nodes n (heap ?r0) (cell_oct ?nd0 ! i)"
    unfolding nodes0 ready0 oct0 using sub ready_child by blast
  have p5: "\<forall>i<8. \<forall>j<8. i \<noteq> j \<longrightarrow>
        nodes n (heap ?r0) (cell_oct ?nd0 ! i) \<inter> nodes n (heap ?r0) (cell_oct ?nd0 ! j) = {}"
    unfolding nodes0 oct0 using disj by blast
  have d8: "distinct ?os" "set ?os \<subseteq> {..<8}" by auto
  from gravity_children_total[OF contract d8 a0 p4 p5] obtain r1 nd1 where
    loop: "gravity_children ar grav a ?os ?r0 = Inr r1"
    and nd1: "heap r1 a = Some nd1"
    and cl1: "moments_cleared nd1 = moments_cleared ?nd0"
    and m1: "cell_m nd1 = foldl (fadd ar) (cell_m ?nd0)
               (map cell_m (child_cells (heap r1) ?nd0 ?os))"
    and mx1: "cell_mx nd1 = foldl (fadd ar) (cell_mx ?nd0)
               (map (weighted ar cell_mx) (child_cells (heap r1) ?nd0 ?os))"
    and my1: "cell_my nd1 = foldl (fadd ar) (cell_my ?nd0)
               (map (weighted ar cell_my) (child_cells (heap r1) ?nd0 ?os))"
    and mz1: "cell_mz nd1 = foldl (fadd ar) (cell_mz ?nd0)
               (map (weighted ar cell_mz) (child_cells (heap r1) ?nd0 ?os))"
    and rest1: "rest_of r1 = rest_of ?r0" and sbm1: "same_but_moments (heap ?r0) (heap r1)"
    and fr1: "\<forall>b. b \<noteq> a \<longrightarrow> b \<notin> (\<Union>i\<in>set ?os. nodes n (heap ?r0) (cell_oct ?nd0 ! i)) \<longrightarrow>
             heap r1 b = heap ?r0 b"
    and nn1: "sound_sums ar \<longrightarrow> (\<forall>p\<in>set (particles ?r0). 0 \<le> p_m p) \<longrightarrow>
           (\<forall>i\<in>set ?os. \<forall>b\<in>nodes n (heap ?r0) (cell_oct ?nd0 ! i). \<forall>c.
              heap r1 b = Some c \<longrightarrow> 0 \<le> cell_m c)"
    by blast
  have co: "child_cells h ?nd0 os = child_cells h nd os" for h os
    by (rule child_cells_oct[OF oct0])
  have M: "cell_m nd1 = fsum ar (map cell_m (child_cells (heap r1) nd ?os))"
    using m1 unfolding co fsum_def by simp
  have MX: "cell_mx nd1 = fsum ar (map (weighted ar cell_mx) (child_cells (heap r1) nd ?os))"
    using mx1 unfolding co fsum_def by simp
  have MY: "cell_my nd1 = fsum ar (map (weighted ar cell_my) (child_cells (heap r1) nd ?os))"
    using my1 unfolding co fsum_def by simp
  have MZ: "cell_mz nd1 = fsum ar (map (weighted ar cell_mz) (child_cells (heap r1) nd ?os))"
    using mz1 unfolding co fsum_def by simp
  have cl: "moments_cleared nd1 = moments_cleared nd" using cl1 cl0 by simp
  have sbm: "same_but_moments (heap r) (heap r1)" by (rule sbm_trans[OF sbm0 sbm1])
  have rest: "rest_of r1 = rest_of r" using rest1 by simp
  have notself: "\<forall>i\<in>set ?os. cell_oct nd ! i \<noteq> Some a"
  proof
    fix i assume "i \<in> set ?os"
    then have "i < 8" by simp
    from sub[OF this] show "cell_oct nd ! i \<noteq> Some a" by auto
  qed
  have frame: "heap r1 b = heap r b" if "b \<notin> nodes (Suc n) (heap r) (Some a)" for b
  proof -
    from that have ba: "b \<noteq> a"
      and bn: "b \<notin> (\<Union>i\<in>set ?os. nodes n (heap ?r0) (cell_oct ?nd0 ! i))"
      unfolding nS nodes0 oct0 by auto
    from fr1 ba bn have "heap r1 b = heap ?r0 b" by blast
    with ba show ?thesis by simp
  qed
  have kid: "0 \<le> cell_m c"
    if s: "sound_sums ar" and pm: "\<forall>p\<in>set (particles r). 0 \<le> p_m p"
      and i: "i < 8" and b: "b \<in> nodes n (heap r) (cell_oct nd ! i)"
      and c: "heap r1 b = Some c" for i b c
  proof -
    have P: "particles ?r0 = particles r" by simp
    from nn1 s have "(\<forall>p\<in>set (particles ?r0). 0 \<le> p_m p) \<longrightarrow>
           (\<forall>i\<in>set ?os. \<forall>b\<in>nodes n (heap ?r0) (cell_oct ?nd0 ! i). \<forall>c.
              heap r1 b = Some c \<longrightarrow> 0 \<le> cell_m c)" by blast
    with pm have Y: "\<forall>i\<in>set ?os. \<forall>b\<in>nodes n (heap ?r0) (cell_oct ?nd0 ! i). \<forall>c.
              heap r1 b = Some c \<longrightarrow> 0 \<le> cell_m c" unfolding P by blast
    have "i \<in> set ?os" using i by simp
    moreover have "b \<in> nodes n (heap ?r0) (cell_oct ?nd0 ! i)" unfolding nodes0 oct0 by (rule b)
    ultimately show ?thesis using Y c by blast
  qed
  have nonneg1: "0 \<le> cell_m c"
    if s: "sound_sums ar" and pm: "\<forall>p\<in>set (particles r). 0 \<le> p_m p"
      and b: "b \<in> nodes (Suc n) (heap r) (Some a)" and c: "heap r1 b = Some c" for b c
  proof (cases "b = a")
    case False
    with b obtain i where "i < 8" "b \<in> nodes n (heap r) (cell_oct nd ! i)" unfolding nS by blast
    from kid[OF s pm this c] show ?thesis .
  next
    case True
    with c nd1 have e: "c = nd1" by simp
    have "\<forall>x\<in>set (map cell_m (child_cells (heap r1) nd ?os)). 0 \<le> x"
    proof
      fix x assume "x \<in> set (map cell_m (child_cells (heap r1) nd ?os))"
      then obtain k where k: "k \<in> set (child_cells (heap r1) nd ?os)" "x = cell_m k" by auto
      from child_cells_set[OF k(1)] obtain i d where i: "i \<in> set ?os"
        "cell_oct nd ! i = Some d" "heap r1 d = Some k" by blast
      from i(1) have i8: "i < 8" by simp
      have "d \<in> nodes n (heap r) (cell_oct nd ! i)" unfolding i(2) by simp
      from kid[OF s pm i8 this i(3)] k(2) show "0 \<le> x" by simp
    qed
    from foldl_nonneg[OF s _ this, of 0] show ?thesis unfolding e M fsum_def by simp
  qed
  note eq = gravity_branch_eq[where r = r and a = a and nd = nd and grav = grav and ar = ar,
      OF nd neg loop nd1]
  show ?thesis
  proof (cases "0 < cell_m nd1")
    case False
    then have e: "tree_update_gravity_data_in_cell_body ar grav r a = Inr r1"
      unfolding eq by simp
    have NN: "sound_sums ar \<longrightarrow> (\<forall>p\<in>set (particles r). 0 \<le> p_m p) \<longrightarrow>
        (\<forall>b\<in>nodes (Suc n) (heap r) (Some a). \<forall>c. heap r1 b = Some c \<longrightarrow> 0 \<le> cell_m c)"
      using nonneg1 by blast
    have FR: "\<forall>b. b \<notin> nodes (Suc n) (heap r) (Some a) \<longrightarrow> heap r1 b = heap r b"
      using frame by blast
    show ?thesis
      using e nd1 cl M MX MY MZ rest sbm FR NN False
      by (intro exI[where x = r1] exI[where x = nd1] conjI) simp_all
  next
    case True
    let ?nd' = "nd1\<lparr>cell_mx := fdiv ar (cell_mx nd1) (cell_m nd1),
                     cell_my := fdiv ar (cell_my nd1) (cell_m nd1),
                     cell_mz := fdiv ar (cell_mz nd1) (cell_m nd1)\<rparr>"
    let ?r' = "set_cell r1 a ?nd'"
    from True have e: "tree_update_gravity_data_in_cell_body ar grav r a = Inr ?r'"
      unfolding eq by simp
    have cc: "child_cells (heap ?r') nd ?os = child_cells (heap r1) nd ?os"
      unfolding heap_set_cell by (rule child_cells_upd[OF notself])
    have h': "heap ?r' a = Some ?nd'" by simp
    have cl': "moments_cleared ?nd' = moments_cleared nd"
      using cl by (simp add: moments_cleared_def)
    have sbm': "same_but_moments (heap r) (heap ?r')"
      unfolding heap_set_cell
      by (rule sbm_trans[OF sbm],
          rule sbm_upd[where h = "heap r1" and a = a and nd = nd1, OF nd1])
        (simp add: moments_cleared_def)
    have fr': "\<forall>b. b \<notin> nodes (Suc n) (heap r) (Some a) \<longrightarrow> heap ?r' b = heap r b"
    proof (intro allI impI)
      fix b assume b: "b \<notin> nodes (Suc n) (heap r) (Some a)"
      then have "b \<noteq> a" by auto
      with frame[OF b] show "heap ?r' b = heap r b" by simp
    qed
    have em: "cell_m ?nd' = fsum ar (map cell_m (child_cells (heap ?r') nd ?os))"
      unfolding cc using M by simp
    have pos: "0 < cell_m ?nd'" using True by simp
    have emx: "cell_mx ?nd' = (if 0 < cell_m ?nd'
        then fdiv ar (fsum ar (map (weighted ar cell_mx) (child_cells (heap ?r') nd ?os)))
               (cell_m ?nd')
        else fsum ar (map (weighted ar cell_mx) (child_cells (heap ?r') nd ?os)))"
      unfolding cc if_P[OF pos] using MX by simp
    have emy: "cell_my ?nd' = (if 0 < cell_m ?nd'
        then fdiv ar (fsum ar (map (weighted ar cell_my) (child_cells (heap ?r') nd ?os)))
               (cell_m ?nd')
        else fsum ar (map (weighted ar cell_my) (child_cells (heap ?r') nd ?os)))"
      unfolding cc if_P[OF pos] using MY by simp
    have emz: "cell_mz ?nd' = (if 0 < cell_m ?nd'
        then fdiv ar (fsum ar (map (weighted ar cell_mz) (child_cells (heap ?r') nd ?os)))
               (cell_m ?nd')
        else fsum ar (map (weighted ar cell_mz) (child_cells (heap ?r') nd ?os)))"
      unfolding cc if_P[OF pos] using MZ by simp
    have rest': "rest_of ?r' = rest_of r" using rest by simp
    have NN: "sound_sums ar \<longrightarrow> (\<forall>p\<in>set (particles r). 0 \<le> p_m p) \<longrightarrow>
        (\<forall>b\<in>nodes (Suc n) (heap r) (Some a). \<forall>c. heap ?r' b = Some c \<longrightarrow> 0 \<le> cell_m c)"
    proof (intro impI ballI allI)
      fix b c
      assume s: "sound_sums ar" and pm: "\<forall>p\<in>set (particles r). 0 \<le> p_m p"
        and b: "b \<in> nodes (Suc n) (heap r) (Some a)" and c: "heap ?r' b = Some c"
      show "0 \<le> cell_m c"
      proof (cases "b = a")
        case True
        with c have "cell_m c = cell_m nd1" by auto
        with nonneg1[OF s pm b[unfolded True] nd1] show ?thesis by simp
      next
        case False
        with c have "heap r1 b = Some c" by simp
        from nonneg1[OF s pm b this] show ?thesis .
      qed
    qed
    show ?thesis
      using e h' cl' em emx emy emz rest' sbm' fr' NN
      by (intro exI[where x = ?r'] exI[where x = ?nd'] conjI)
  qed
qed

lemma gravity_body_contract:
  assumes contract: "gravity_contract ar n grav"
  shows "gravity_contract ar (Suc n) (tree_update_gravity_data_in_cell_body ar grav)"
  unfolding gravity_contract_def
proof (intro allI impI)
  fix r a
  assume ready: "gravity_ready (Suc n) r (Some a)"
  then have wf: "wf_tree (Suc n) (heap r) (Some a)" by (simp add: gravity_ready_def)
  from wf_tree_live[OF wf] obtain nd where nd: "heap r a = Some nd" by blast
  show "\<exists>r'. tree_update_gravity_data_in_cell_body ar grav r a = Inr r' \<and>
             gravity_post ar (Suc n) r a r'"
  proof (cases "cell_pt nd < 0")
    case True
    from gravity_branch[OF contract ready nd True] show ?thesis
      unfolding gravity_post_def by blast
  next
    case False
    then have leaf: "0 \<le> cell_pt nd" by simp
    from ready nd have lr: "leaf_ready r nd"
      unfolding gravity_ready_def by (auto dest: bspec[where x = a])
    with leaf have idx: "nat (cell_pt nd) < length (particles r)"
      and nokids: "\<forall>q\<in>set (cell_oct nd). q = None"
      unfolding leaf_ready_def by blast+
    let ?p = "particles r ! nat (cell_pt nd)"
    let ?nd' = "nd\<lparr>cell_m := p_m ?p, cell_mx := p_x ?p, cell_my := p_y ?p, cell_mz := p_z ?p\<rparr>"
    note e = gravity_leaf_eq[where r = r and a = a and nd = nd and ar = ar and grav = grav,
        OF nd leaf idx]
    have nodes_a: "nodes (Suc n) (heap r) (Some a) = {a}"
      unfolding nodes_Suc[where h = "heap r" and a = a and nd = nd and n = n, OF nd]
    proof -
      have "nodes n (heap r) (cell_oct nd ! i) = {}" if "i < length (cell_oct nd)" for i
      proof -
        from that nokids have "cell_oct nd ! i = None" by (metis nth_mem)
        then show ?thesis by simp
      qed
      then show "insert a (\<Union>i<length (cell_oct nd). nodes n (heap r) (cell_oct nd ! i)) = {a}"
        by auto
    qed
    have 1: "same_but_moments (heap r) (heap (set_cell r a ?nd'))"
      unfolding heap_set_cell
      by (rule sbm_upd[where h = "heap r" and a = a and nd = nd, OF nd])
        (simp add: moments_cleared_def)
    have 2: "\<forall>b. b \<notin> nodes (Suc n) (heap r) (Some a) \<longrightarrow>
        heap (set_cell r a ?nd') b = heap r b"
      unfolding nodes_a by simp
    have 3: "sound_sums ar \<longrightarrow> (\<forall>p\<in>set (particles r). 0 \<le> p_m p) \<longrightarrow>
         (\<forall>b\<in>nodes (Suc n) (heap r) (Some a). \<forall>c.
            heap (set_cell r a ?nd') b = Some c \<longrightarrow> 0 \<le> cell_m c)"
      unfolding nodes_a using idx by auto
    show ?thesis
      unfolding e gravity_post_def using 1 2 3 by simp
  qed
qed

lemma gravity_contract_all: "gravity_contract ar n (tree_update_gravity_data_in_cell ar n)"
proof (induction n)
  case 0
  show ?case by (simp add: gravity_contract_def gravity_ready_def)
next
  case (Suc n)
  from gravity_body_contract[OF Suc] show ?case by simp
qed

section \<open>Moments of a branch\<close>

lemma sound_sums_exact: "sound_sums exact"
  by (auto simp: sound_sums_def exact_def)

text \<open>C8: moment aggregation of a branch \<open>a\<close> of a tree, when no particle has a negative
  mass, returns, and then the mass of \<open>a\<close> is the sum of the masses of its children and
  its centre of mass is the mass-weighted average of the centres of mass of its children:
  the sum of the products \<open>mx * m\<close> of the children divided by the total mass. When the
  total mass is zero the division is skipped and the centre of mass is left at zero. The
  sums, products and quotients are the rounded ones of double arithmetic (\<open>ar\<close>), taken in
  the order of the octants; of the rounding the theorem needs \<open>sound_sums\<close>.\<close>

theorem moment_aggregation:
  assumes ready: "gravity_ready (Suc n) r (Some a)"
    and nd: "heap r a = Some nd" and neg: "cell_pt nd < 0"
    and s: "sound_sums ar" and pm: "\<forall>p\<in>set (particles r). 0 \<le> p_m p"
  shows "\<exists>r' nd'. tree_update_gravity_data_in_cell ar (Suc n) r a = Inr r' \<and>
     heap r' a = Some nd' \<and> cell_oct nd' = cell_oct nd \<and>
     (\<forall>k\<in>set (child_cells (heap r') nd' [0..<8]). 0 \<le> cell_m k) \<and>
     cell_m nd' = fsum ar (map cell_m (child_cells (heap r') nd' [0..<8])) \<and>
     (cell_m nd' \<noteq> 0 \<longrightarrow>
        cell_mx nd' = fdiv ar (fsum ar (map (weighted ar cell_mx)
                         (child_cells (heap r') nd' [0..<8]))) (cell_m nd') \<and>
        cell_my nd' = fdiv ar (fsum ar (map (weighted ar cell_my)
                         (child_cells (heap r') nd' [0..<8]))) (cell_m nd') \<and>
        cell_mz nd' = fdiv ar (fsum ar (map (weighted ar cell_mz)
                         (child_cells (heap r') nd' [0..<8]))) (cell_m nd')) \<and>
     (cell_m nd' = 0 \<longrightarrow> cell_mx nd' = 0 \<and> cell_my nd' = 0 \<and> cell_mz nd' = 0)"
proof -
  let ?os = "[0..<8] :: nat list"
  have body: "tree_update_gravity_data_in_cell ar (Suc n) r a =
      tree_update_gravity_data_in_cell_body ar (tree_update_gravity_data_in_cell ar n) r a"
    by simp
  from gravity_branch[OF gravity_contract_all ready nd neg, of ar] obtain r' nd' where
    run: "tree_update_gravity_data_in_cell ar (Suc n) r a = Inr r'"
    and a': "heap r' a = Some nd'" and cl: "moments_cleared nd' = moments_cleared nd"
    and m: "cell_m nd' = fsum ar (map cell_m (child_cells (heap r') nd ?os))"
    and mx: "cell_mx nd' = (if 0 < cell_m nd'
        then fdiv ar (fsum ar (map (weighted ar cell_mx) (child_cells (heap r') nd ?os)))
               (cell_m nd')
        else fsum ar (map (weighted ar cell_mx) (child_cells (heap r') nd ?os)))"
    and my: "cell_my nd' = (if 0 < cell_m nd'
        then fdiv ar (fsum ar (map (weighted ar cell_my) (child_cells (heap r') nd ?os)))
               (cell_m nd')
        else fsum ar (map (weighted ar cell_my) (child_cells (heap r') nd ?os)))"
    and mz: "cell_mz nd' = (if 0 < cell_m nd'
        then fdiv ar (fsum ar (map (weighted ar cell_mz) (child_cells (heap r') nd ?os)))
               (cell_m nd')
        else fsum ar (map (weighted ar cell_mz) (child_cells (heap r') nd ?os)))"
    and nn: "sound_sums ar \<longrightarrow> (\<forall>p\<in>set (particles r). 0 \<le> p_m p) \<longrightarrow>
        (\<forall>b\<in>nodes (Suc n) (heap r) (Some a). \<forall>c. heap r' b = Some c \<longrightarrow> 0 \<le> cell_m c)"
    unfolding body by blast
  have oct: "cell_oct nd' = cell_oct nd" by (rule cleared_oct[OF cl])
  have co: "child_cells (heap r') nd' ?os = child_cells (heap r') nd ?os"
    by (rule child_cells_oct[OF oct])
  from ready have wf: "wf_tree (Suc n) (heap r) (Some a)" by (simp add: gravity_ready_def)
  from wf nd have len: "length (cell_oct nd) = 8" unfolding wf_tree_Suc by auto
  note nS = nodes_Suc[where h = "heap r" and a = a and nd = nd and n = n, OF nd, unfolded len]
  from nn s pm have NN: "\<And>b c. b \<in> nodes (Suc n) (heap r) (Some a) \<Longrightarrow> heap r' b = Some c \<Longrightarrow>
      0 \<le> cell_m c" by blast
  have kids: "\<forall>k\<in>set (child_cells (heap r') nd ?os). 0 \<le> cell_m k"
  proof
    fix k assume "k \<in> set (child_cells (heap r') nd ?os)"
    from child_cells_set[OF this] obtain i d where i: "i \<in> set ?os"
      "cell_oct nd ! i = Some d" "heap r' d = Some k" by blast
    from i(1) have i8: "i < 8" by simp
    have "d \<in> nodes n (heap r) (cell_oct nd ! i)" unfolding i(2) by simp
    with i8 have "d \<in> nodes (Suc n) (heap r) (Some a)" unfolding nS by blast
    from NN[OF this i(3)] show "0 \<le> cell_m k" .
  qed
  have m0: "0 \<le> cell_m nd'" using NN[OF _ a'] by simp
  have pos: "cell_mx nd' = fdiv ar (fsum ar (map (weighted ar cell_mx)
                         (child_cells (heap r') nd ?os))) (cell_m nd') \<and>
        cell_my nd' = fdiv ar (fsum ar (map (weighted ar cell_my)
                         (child_cells (heap r') nd ?os))) (cell_m nd') \<and>
        cell_mz nd' = fdiv ar (fsum ar (map (weighted ar cell_mz)
                         (child_cells (heap r') nd ?os))) (cell_m nd')"
    if "cell_m nd' \<noteq> 0"
  proof -
    from that m0 have p: "0 < cell_m nd'" by simp
    from mx my mz show ?thesis unfolding if_P[OF p] by blast
  qed
  have zero: "cell_mx nd' = 0 \<and> cell_my nd' = 0 \<and> cell_mz nd' = 0" if z: "cell_m nd' = 0"
  proof -
    from z have np: "\<not> 0 < cell_m nd'" by simp
    have "\<forall>x\<in>set (map cell_m (child_cells (heap r') nd ?os)). 0 \<le> x" using kids by simp
    from foldl_nonneg[OF s _ this, of 0] z m
    have "\<forall>x\<in>set (map cell_m (child_cells (heap r') nd ?os)). x = 0"
      unfolding fsum_def by simp
    then have all0: "\<forall>k\<in>set (child_cells (heap r') nd ?os). cell_m k = 0" by simp
    note f = foldl_zero[OF s all0]
    from mx my mz show ?thesis unfolding if_not_P[OF np] fsum_def f by blast
  qed
  have POS: "cell_m nd' \<noteq> 0 \<longrightarrow>
        cell_mx nd' = fdiv ar (fsum ar (map (weighted ar cell_mx)
                         (child_cells (heap r') nd ?os))) (cell_m nd') \<and>
        cell_my nd' = fdiv ar (fsum ar (map (weighted ar cell_my)
                         (child_cells (heap r') nd ?os))) (cell_m nd') \<and>
        cell_mz nd' = fdiv ar (fsum ar (map (weighted ar cell_mz)
                         (child_cells (heap r') nd ?os))) (cell_m nd')"
    using pos by blast
  have ZERO: "cell_m nd' = 0 \<longrightarrow> cell_mx nd' = 0 \<and> cell_my nd' = 0 \<and> cell_mz nd' = 0"
    using zero by blast
  show ?thesis
    apply (rule exI[where x = r'])
    apply (rule exI[where x = nd'])
    unfolding co
    using run a' oct kids m POS ZERO
    apply (intro conjI)
          apply assumption+
    done
qed

lemma two_moved_gravity_ready: "gravity_ready (Suc 1) two_particles_moved (Some 0)"
  by code_simp

lemma two_moved_gravity_mass:
  "map_option cell_m (cell_after (tree_update_gravity_data_in_cell exact (Suc 1)
      two_particles_moved 0) 0) = Some 2"
  by code_simp

theorem moment_aggregation_witness:
  "gravity_ready (Suc 1) two_particles_moved (Some 0) \<and>
   (\<exists>nd. heap two_particles_moved 0 = Some nd \<and> cell_pt nd < 0) \<and>
   sound_sums exact \<and> map p_m (particles two_particles_moved) = [1, 1] \<and>
   (\<exists>r' nd'. tree_update_gravity_data_in_cell exact (Suc 1) two_particles_moved 0 = Inr r' \<and>
      heap r' 0 = Some nd' \<and> cell_m nd' = 2 \<and>
      fsum exact (map cell_m (child_cells (heap r') nd' [0..<8])) = 2 \<and>
      cell_mx nd' = fdiv exact (fsum exact (map (weighted exact cell_mx)
                         (child_cells (heap r') nd' [0..<8]))) 2)"
proof -
  obtain nd where nd: "heap two_particles_moved 0 = Some nd" and neg: "cell_pt nd < 0"
    by (simp add: two_particles_moved_def)
  have ms: "map p_m (particles two_particles_moved) = [1, 1]"
    by (simp add: two_particles_moved_def)
  have pm: "\<forall>p\<in>set (particles two_particles_moved). 0 \<le> p_m p"
    by (simp add: two_particles_moved_def)
  from moment_aggregation[OF two_moved_gravity_ready nd neg sound_sums_exact pm] obtain r' nd'
    where g: "tree_update_gravity_data_in_cell exact (Suc 1) two_particles_moved 0 = Inr r'"
      and a': "heap r' 0 = Some nd'"
      and m: "cell_m nd' = fsum exact (map cell_m (child_cells (heap r') nd' [0..<8]))"
      and mx: "cell_m nd' \<noteq> 0 \<longrightarrow>
        cell_mx nd' = fdiv exact (fsum exact (map (weighted exact cell_mx)
                         (child_cells (heap r') nd' [0..<8]))) (cell_m nd')"
    by blast
  from two_moved_gravity_mass have m2: "cell_m nd' = 2"
    unfolding g cell_after_def using a' by simp
  from m2 m mx have "fsum exact (map cell_m (child_cells (heap r') nd' [0..<8])) = 2"
    "cell_mx nd' = fdiv exact (fsum exact (map (weighted exact cell_mx)
                         (child_cells (heap r') nd' [0..<8]))) 2"
    by simp_all
  with two_moved_gravity_ready nd neg sound_sums_exact ms g a' m2 show ?thesis by blast
qed

section \<open>Insertion: untouched cells\<close>

lemma reach_trans:
  assumes "x \<in> reach h d" "d \<in> reach h a"
  shows "x \<in> reach h a"
  using assms by (induction rule: reach.induct) (auto intro: reach.intros)

lemma reach_closed:
  assumes x: "x \<in> reach h a" and a: "a \<in> S"
    and cl: "\<And>b c d. b \<in> S \<Longrightarrow> h b = Some c \<Longrightarrow> Some d \<in> set (cell_oct c) \<Longrightarrow> d \<in> S"
  shows "x \<in> S"
  using x
proof (induction rule: reach.induct)
  case reach_self
  show ?case by (rule a)
next
  case (reach_step b c d)
  from cl[OF reach_step.IH reach_step.hyps(2,3)] show ?case .
qed

lemma reach_oct_sub:
  assumes x: "x \<in> reach h a"
    and eq: "\<And>b. map_option cell_oct (h' b) = map_option cell_oct (h b)"
  shows "x \<in> reach h' a"
  using x
proof (induction rule: reach.induct)
  case reach_self
  show ?case by (rule reach.reach_self)
next
  case (reach_step b c d)
  from eq[of b] reach_step.hyps(2) obtain c' where c': "h' b = Some c'" "cell_oct c' = cell_oct c"
    by (cases "h' b") auto
  from reach_step.hyps(3) have "Some d \<in> set (cell_oct c')" unfolding c'(2) .
  from reach.reach_step[where h = h', OF reach_step.IH c'(1) this] show ?case .
qed

lemma reach_cong:
  assumes eq: "\<And>b. map_option cell_oct (h' b) = map_option cell_oct (h b)"
  shows "reach h' a = reach h a"
proof (intro set_eqI iffI)
  fix x assume "x \<in> reach h' a"
  then show "x \<in> reach h a" by (rule reach_oct_sub) (simp add: eq)
next
  fix x assume "x \<in> reach h a"
  then show "x \<in> reach h' a" by (rule reach_oct_sub) (simp add: eq)
qed

lemma reach_child:
  assumes nd: "h a = Some nd" and i: "i < length (cell_oct nd)"
  shows "reach_opt h (cell_oct nd ! i) \<subseteq> reach h a"
proof (cases "cell_oct nd ! i")
  case None
  then show ?thesis by (simp add: reach_opt_def)
next
  case (Some d)
  from i Some have "Some d \<in> set (cell_oct nd)" by (metis nth_mem)
  from reach.reach_step[where h = h and a = a and b = a, OF reach.reach_self nd this]
  have d: "d \<in> reach h a" .
  show ?thesis unfolding Some reach_opt_def using reach_trans[OF _ d] by auto
qed

lemma same_geometry_refl [simp]: "same_geometry c c"
  by (simp add: same_geometry_def)

lemma same_geometry_trans: "same_geometry c c1 \<Longrightarrow> same_geometry c1 c2 \<Longrightarrow> same_geometry c c2"
  by (simp add: same_geometry_def)

lemma grownD:
  assumes "grown B h h'" "h b = Some c0"
  obtains c1 where "h' b = Some c1" "same_geometry c0 c1"
    "length (cell_oct c1) = length (cell_oct c0)"
    "\<And>i. i < length (cell_oct c0) \<Longrightarrow> cell_oct c1 ! i = cell_oct c0 ! i \<or>
              (cell_oct c0 ! i = None \<and> (\<exists>f\<ge>B. cell_oct c1 ! i = Some f))"
  using assms unfolding grown_def by blast

lemma grownI:
  assumes "\<And>b c0. h b = Some c0 \<Longrightarrow> \<exists>c1. h' b = Some c1 \<and> same_geometry c0 c1 \<and>
           length (cell_oct c1) = length (cell_oct c0) \<and>
           (\<forall>i<length (cell_oct c0).
              cell_oct c1 ! i = cell_oct c0 ! i \<or>
              (cell_oct c0 ! i = None \<and> (\<exists>f\<ge>B. cell_oct c1 ! i = Some f)))"
  shows "grown B h h'"
  unfolding grown_def using assms by blast

lemma grown_refl [simp]: "grown B h h"
  by (rule grownI) simp

lemma grown_trans:
  assumes 1: "grown B h h1" and 2: "grown B h1 h2"
  shows "grown B h h2"
proof (rule grownI)
  fix b c0 assume b: "h b = Some c0"
  from grownD[OF 1 b] obtain c1 where c1: "h1 b = Some c1" "same_geometry c0 c1"
    "length (cell_oct c1) = length (cell_oct c0)"
    and s1: "\<And>i. i < length (cell_oct c0) \<Longrightarrow> cell_oct c1 ! i = cell_oct c0 ! i \<or>
              (cell_oct c0 ! i = None \<and> (\<exists>f\<ge>B. cell_oct c1 ! i = Some f))"
    by blast
  from grownD[OF 2 c1(1)] obtain c2 where c2: "h2 b = Some c2" "same_geometry c1 c2"
    "length (cell_oct c2) = length (cell_oct c1)"
    and s2: "\<And>i. i < length (cell_oct c1) \<Longrightarrow> cell_oct c2 ! i = cell_oct c1 ! i \<or>
              (cell_oct c1 ! i = None \<and> (\<exists>f\<ge>B. cell_oct c2 ! i = Some f))"
    by blast
  have "cell_oct c2 ! i = cell_oct c0 ! i \<or>
              (cell_oct c0 ! i = None \<and> (\<exists>f\<ge>B. cell_oct c2 ! i = Some f))"
    if "i < length (cell_oct c0)" for i
    using s1[OF that] s2[of i] that c1(3) by auto
  with c2 c1 same_geometry_trans[OF c1(2) c2(2)]
  show "\<exists>c1. h2 b = Some c1 \<and> same_geometry c0 c1 \<and>
           length (cell_oct c1) = length (cell_oct c0) \<and>
           (\<forall>i<length (cell_oct c0).
              cell_oct c1 ! i = cell_oct c0 ! i \<or>
              (cell_oct c0 ! i = None \<and> (\<exists>f\<ge>B. cell_oct c1 ! i = Some f)))"
    by simp
qed

lemma grown_mono:
  assumes le: "B \<le> B'" and g: "grown B' h h'"
  shows "grown B h h'"
proof (rule grownI)
  fix b c0 assume b: "h b = Some c0"
  from grownD[OF g b] obtain c1 where c1: "h' b = Some c1" "same_geometry c0 c1"
    "length (cell_oct c1) = length (cell_oct c0)"
    and s1: "\<And>i. i < length (cell_oct c0) \<Longrightarrow> cell_oct c1 ! i = cell_oct c0 ! i \<or>
              (cell_oct c0 ! i = None \<and> (\<exists>f\<ge>B'. cell_oct c1 ! i = Some f))"
    by blast
  have "cell_oct c1 ! i = cell_oct c0 ! i \<or>
              (cell_oct c0 ! i = None \<and> (\<exists>f\<ge>B. cell_oct c1 ! i = Some f))"
    if "i < length (cell_oct c0)" for i
    using s1[OF that] le by (meson order_trans)
  with c1 show "\<exists>c1. h' b = Some c1 \<and> same_geometry c0 c1 \<and>
           length (cell_oct c1) = length (cell_oct c0) \<and>
           (\<forall>i<length (cell_oct c0).
              cell_oct c1 ! i = cell_oct c0 ! i \<or>
              (cell_oct c0 ! i = None \<and> (\<exists>f\<ge>B. cell_oct c1 ! i = Some f)))"
    by simp
qed

lemma grown_upd_pt:
  assumes g: "grown B h h1" and a1: "h1 a = Some c1"
  shows "grown B h (h1(a \<mapsto> c1\<lparr>cell_pt := x\<rparr>))"
proof (rule grown_trans[OF g], rule grownI)
  fix b c0 assume b: "h1 b = Some c0"
  show "\<exists>c. (h1(a \<mapsto> c1\<lparr>cell_pt := x\<rparr>)) b = Some c \<and> same_geometry c0 c \<and>
           length (cell_oct c) = length (cell_oct c0) \<and>
           (\<forall>i<length (cell_oct c0).
              cell_oct c ! i = cell_oct c0 ! i \<or>
              (cell_oct c0 ! i = None \<and> (\<exists>f\<ge>B. cell_oct c ! i = Some f)))"
    using b a1 by (cases "b = a") (simp_all add: same_geometry_def)
qed

lemma grown_upd_slot:
  assumes g: "grown B h h1" and a0: "h a = Some c0" and a1: "h1 a = Some c1"
    and o: "o' < length (cell_oct c0)"
    and v: "cell_oct c0 ! o' = Some v \<or> (cell_oct c0 ! o' = None \<and> B \<le> v)"
  shows "grown B h (h1(a \<mapsto> c1\<lparr>cell_oct := (cell_oct c1)[o' := Some v]\<rparr>))"
proof (rule grownI)
  fix b c assume b: "h b = Some c"
  from grownD[OF g b] obtain c' where c': "h1 b = Some c'" "same_geometry c c'"
    "length (cell_oct c') = length (cell_oct c)"
    and s: "\<And>i. i < length (cell_oct c) \<Longrightarrow> cell_oct c' ! i = cell_oct c ! i \<or>
              (cell_oct c ! i = None \<and> (\<exists>f\<ge>B. cell_oct c' ! i = Some f))"
    by blast
  show "\<exists>c1'. (h1(a \<mapsto> c1\<lparr>cell_oct := (cell_oct c1)[o' := Some v]\<rparr>)) b = Some c1' \<and>
           same_geometry c c1' \<and> length (cell_oct c1') = length (cell_oct c) \<and>
           (\<forall>i<length (cell_oct c).
              cell_oct c1' ! i = cell_oct c ! i \<or>
              (cell_oct c ! i = None \<and> (\<exists>f\<ge>B. cell_oct c1' ! i = Some f)))"
  proof (cases "b = a")
    case False
    with c' s show ?thesis by simp
  next
    case True
    with b a0 c'(1) a1 have e: "c = c0" "c' = c1" by simp_all
    have "(cell_oct c1)[o' := Some v] ! i = cell_oct c0 ! i \<or>
              (cell_oct c0 ! i = None \<and> (\<exists>f\<ge>B. (cell_oct c1)[o' := Some v] ! i = Some f))"
      if "i < length (cell_oct c0)" for i
    proof (cases "i = o'")
      case True
      with v o c'(3) show ?thesis unfolding e by auto
    next
      case False
      with s[of i] that show ?thesis unfolding e by simp
    qed
    with True c'(2,3) show ?thesis unfolding e by (simp add: same_geometry_def)
  qed
qed

lemma grown_geometry: "grown B h h' \<Longrightarrow> cells_keep_geometry h h'"
  unfolding grown_def cells_keep_geometry_def by blast

lemma reach_grown:
  assumes g: "grown B h h'" and fc: "fresh_closed B h'" and nr: "no_revival B h h'"
    and y: "y \<in> reach h' x" and x: "x \<in> reach h a \<or> B \<le> x"
  shows "y \<in> reach h a \<or> B \<le> y"
proof -
  have "y \<in> {y. y \<in> reach h a \<or> B \<le> y}"
  proof (rule reach_closed[OF y])
    show "x \<in> {y. y \<in> reach h a \<or> B \<le> y}" using x by simp
  next
    fix b c d
    assume b: "b \<in> {y. y \<in> reach h a \<or> B \<le> y}" and c: "h' b = Some c"
      and d: "Some d \<in> set (cell_oct c)"
    show "d \<in> {y. y \<in> reach h a \<or> B \<le> y}"
    proof (cases "B \<le> b")
      case True
      with fc c d have "B \<le> d" unfolding fresh_closed_def by blast
      then show ?thesis by simp
    next
      case False
      with b have br: "b \<in> reach h a" and bB: "b < B" by auto
      from nr bB c obtain c0 where c0: "h b = Some c0"
        unfolding no_revival_def by (cases "h b") auto
      from grownD[OF g c0] c have len: "length (cell_oct c) = length (cell_oct c0)"
        and s: "\<And>i. i < length (cell_oct c0) \<Longrightarrow> cell_oct c ! i = cell_oct c0 ! i \<or>
              (cell_oct c0 ! i = None \<and> (\<exists>f\<ge>B. cell_oct c ! i = Some f))"
        by auto
      from d obtain i where i: "i < length (cell_oct c)" "cell_oct c ! i = Some d"
        unfolding in_set_conv_nth by blast
      from s[of i] i len consider "cell_oct c0 ! i = Some d" | "B \<le> d" by auto
      then show ?thesis
      proof cases
        case 1
        with i len have "Some d \<in> set (cell_oct c0)" by (metis nth_mem)
        from reach.reach_step[where h = h, OF br c0 this] show ?thesis by simp
      next
        case 2
        then show ?thesis by simp
      qed
    qed
  qed
  then show ?thesis by simp
qed

end
